theory Spec2Isabelle
  imports Complex_Main "HOL-Library.Word" "HOL-Library.Multiset"
begin

unbundle bit_operations_syntax

section \<open>Addresses and prefixes (the part of net/netip the program uses)\<close>

text \<open>
  A \<open>netip.Addr\<close> is an IPv4 address (32 bits) or an IPv6 address (128 bits); a
  \<open>netip.Prefix\<close> is an address with a prefix length. Go's \<open>float64\<close> is modelled by
  \<open>real\<close> (exact arithmetic) and Go's \<open>int\<close> counters by \<open>int\<close>.
\<close>

datatype addr = Addr4 "32 word" | Addr6 "128 word"

datatype prefix = Prefix (Addr: addr) (Bits: nat)

fun Is4 :: "addr \<Rightarrow> bool" where
  "Is4 (Addr4 w) = True"
| "Is4 (Addr6 w) = False"

fun BitLen :: "addr \<Rightarrow> nat" where
  "BitLen (Addr4 w) = 32"
| "BitLen (Addr6 w) = 128"

text \<open>\<open>Prefix.IsValid\<close>: the prefix length is within the address width.\<close>

definition IsValid :: "prefix \<Rightarrow> bool" where
  "IsValid p = (Bits p \<le> BitLen (Addr p))"

text \<open>\<open>Prefix.Masked\<close>: all but the high \<open>Bits\<close> bits of the address are set to zero.\<close>

fun maskAddr :: "addr \<Rightarrow> nat \<Rightarrow> addr" where
  "maskAddr (Addr4 w) b = Addr4 (w AND NOT (mask (32 - b)))"
| "maskAddr (Addr6 w) b = Addr6 (w AND NOT (mask (128 - b)))"

definition Masked :: "prefix \<Rightarrow> prefix" where
  "Masked p = Prefix (maskAddr (Addr p) (Bits p)) (Bits p)"

section \<open>Arm node: per-prefix Bayesian posterior and counters\<close>

record ArmNode =
  PrefixOf :: prefix
  Parent :: "prefix option"
  Children :: "prefix list"
  Alpha :: real
  Beta :: real
  Mu :: real
  Lambda :: real
  AlphaNG :: real
  BetaNG :: real
  Samples :: int
  Successes :: int
  Failures :: int
  SumLatency :: real
  SumSqDiff :: real
  IsSplit :: bool

definition NewArmNode :: "prefix \<Rightarrow> prefix option \<Rightarrow> ArmNode" where
  "NewArmNode p parent =
     \<lparr>PrefixOf = Masked p, Parent = parent, Children = [],
      Alpha = 1, Beta = 1,
      Mu = 0, Lambda = 1 / 1000, AlphaNG = 1, BetaNG = 1,
      Samples = 0, Successes = 0, Failures = 0, SumLatency = 0, SumSqDiff = 0,
      IsSplit = False\<rparr>"

text \<open>\<open>ArmNode.Update\<close>, statement by statement; the lock is not modelled.\<close>

definition UpdateSuccess :: "real \<Rightarrow> ArmNode \<Rightarrow> ArmNode" where
  "UpdateSuccess latencyMS a0 =
     (let a1 = a0\<lparr>Successes := Successes a0 + 1\<rparr>;
          a2 = a1\<lparr>Alpha := Alpha a1 + 1\<rparr>;
          oldMu = Mu a2;
          oldLambda = Lambda a2;
          a3 = a2\<lparr>Lambda := oldLambda + 1\<rparr>;
          a4 = a3\<lparr>Mu := (oldLambda * oldMu + latencyMS) / Lambda a3\<rparr>;
          a5 = a4\<lparr>SumLatency := SumLatency a4 + latencyMS\<rparr>;
          a6 = (if Successes a5 > 1
                then let delta = latencyMS - oldMu
                     in a5\<lparr>SumSqDiff :=
                          SumSqDiff a5 + delta * (latencyMS - Mu a5) * oldLambda / Lambda a5\<rparr>
                else a5);
          a7 = (if Successes a6 > 1
                then let b = a6\<lparr>AlphaNG := AlphaNG a6 + 1 / 2\<rparr>
                     in b\<lparr>BetaNG :=
                          BetaNG b
                          + 1 / 2 * (latencyMS - oldMu) * (latencyMS - Mu b) * oldLambda / Lambda b\<rparr>
                else a6)
      in a7)"

definition UpdateFailure :: "real \<Rightarrow> ArmNode \<Rightarrow> ArmNode" where
  "UpdateFailure timeoutMS a0 =
     (let a1 = a0\<lparr>Failures := Failures a0 + 1\<rparr>;
          a2 = a1\<lparr>Beta := Beta a1 + 1\<rparr>;
          penaltyLatency = timeoutMS * 2;
          oldMu = Mu a2;
          oldLambda = Lambda a2;
          weight = 1 / 2;
          a3 = a2\<lparr>Lambda := oldLambda + weight\<rparr>;
          a4 = a3\<lparr>Mu := (oldLambda * oldMu + weight * penaltyLatency) / Lambda a3\<rparr>
      in a4)"

definition Update :: "bool \<Rightarrow> real \<Rightarrow> real \<Rightarrow> ArmNode \<Rightarrow> ArmNode" where
  "Update success latencyMS timeoutMS a0 =
     (let a = a0\<lparr>Samples := Samples a0 + 1\<rparr>
      in if success then UpdateSuccess latencyMS a else UpdateFailure timeoutMS a)"

text \<open>A sequence of \<open>Update\<close> calls \<open>(success, latencyMS, timeoutMS)\<close>, oldest first.\<close>

fun Updates :: "(bool \<times> real \<times> real) list \<Rightarrow> ArmNode \<Rightarrow> ArmNode" where
  "Updates [] a = a"
| "Updates ((s, x, t) # ops) a = Updates ops (Update s x t a)"

text \<open>The invariant of an arm.\<close>

definition arm_inv :: "ArmNode \<Rightarrow> bool" where
  "arm_inv a = (Samples a = Successes a + Failures a \<and> 1 \<le> Alpha a \<and> 1 \<le> Beta a
      \<and> 1 / 1000 \<le> Lambda a)"


section \<open>Byte views of addresses\<close>

text \<open>
  \<open>Addr.As4\<close> and \<open>Addr.As16\<close> give the address as bytes in network order;
  \<open>AddrFrom4\<close> and \<open>AddrFrom16\<close> build an address from such bytes. In Go \<open>As4\<close>
  panics on an IPv6 address that is not IPv4-mapped; every caller below tests \<open>Is4\<close>
  first, and the model returns the low four bytes there. \<open>As16\<close> of an IPv4 address is
  its IPv4-mapped IPv6 form.
\<close>

definition bytes_be :: "nat \<Rightarrow> 'a::len word \<Rightarrow> 8 word list" where
  "bytes_be k w = map (\<lambda>i. ucast (drop_bit (8 * (k - 1 - i)) w)) [0..<k]"

fun As4 :: "addr \<Rightarrow> 8 word list" where
  "As4 (Addr4 w) = bytes_be 4 w"
| "As4 (Addr6 w) = bytes_be 4 w"

fun As16 :: "addr \<Rightarrow> 8 word list" where
  "As16 (Addr4 w) = bytes_be 16 (0xFFFF00000000 OR ucast w :: 128 word)"
| "As16 (Addr6 w) = bytes_be 16 w"

definition AddrFrom4 :: "8 word list \<Rightarrow> addr" where
  "AddrFrom4 bs = Addr4 (word_rcat bs)"

definition AddrFrom16 :: "8 word list \<Rightarrow> addr" where
  "AddrFrom16 bs = Addr6 (word_rcat bs)"

text \<open>
  \<open>Prefix.Contains\<close>: the address is of the prefix's family and agrees with the
  prefix's address on the high \<open>Bits\<close> bits.
\<close>

fun Contains :: "prefix \<Rightarrow> addr \<Rightarrow> bool" where
  "Contains (Prefix (Addr4 n) b) (Addr4 w) = (b \<le> 32 \<and> drop_bit (32 - b) (w XOR n) = 0)"
| "Contains (Prefix (Addr6 n) b) (Addr6 w) =
     (b \<le> 128 \<and> (w XOR n) AND NOT (mask (128 - b)) = 0)"
| "Contains (Prefix (Addr4 n) b) (Addr6 w) = False"
| "Contains (Prefix (Addr6 n) b) (Addr4 w) = False"

section \<open>Thompson sampler: drawing an address from a prefix\<close>

text \<open>
  The state of a \<open>rand.Rand\<close> is modelled by the sequence of 64-bit values it will
  return: \<open>Uint64\<close> returns the next one and the advanced state.
\<close>

type_synonym rng = "nat \<Rightarrow> 64 word"

definition Uint64 :: "rng \<Rightarrow> 64 word \<times> rng" where
  "Uint64 g = (g 0, \<lambda>n. g (Suc n))"

definition sampleAddr4 :: "prefix \<Rightarrow> rng \<Rightarrow> addr \<times> rng" where
  "sampleAddr4 p rng =
     (let a = As4 (Addr p);
          hostBits = 32 - Bits p
      in if hostBits = 0 then (Addr p, rng)
         else
           let base = (push_bit 24 (ucast (a ! 0)) OR push_bit 16 (ucast (a ! 1))
                         OR push_bit 8 (ucast (a ! 2)) OR ucast (a ! 3) :: 32 word);
               mask = (push_bit hostBits 1 - 1 :: 32 word);
               (r, rng') = Uint64 rng;
               host = (ucast r :: 32 word) AND mask;
               ip = base OR host
           in (AddrFrom4 [ucast (drop_bit 24 ip), ucast (drop_bit 16 ip),
                          ucast (drop_bit 8 ip), ucast ip], rng'))"

text \<open>
  The loop of \<open>sampleAddr6\<close>, \<open>for i := 15; i >= 0 && bitsRemaining > 0; i--\<close>: the
  first argument is \<open>i + 1\<close>.
\<close>

fun fillHost :: "nat \<Rightarrow> nat \<Rightarrow> 8 word list \<Rightarrow> rng \<Rightarrow> 8 word list \<times> rng" where
  "fillHost 0 bitsRemaining result rng = (result, rng)"
| "fillHost (Suc i) bitsRemaining result rng =
     (if bitsRemaining > 0
      then if bitsRemaining \<ge> 8
           then let (r, rng') = Uint64 rng
                in fillHost i (bitsRemaining - 8) (result[i := ucast r]) rng'
           else let mask = (push_bit bitsRemaining 1 - 1 :: 8 word);
                    (r, rng') = Uint64 rng
                in fillHost i 0
                     (result[i := (result ! i AND NOT mask) OR (ucast r AND mask)]) rng'
      else (result, rng))"

definition sampleAddr6 :: "prefix \<Rightarrow> rng \<Rightarrow> addr \<times> rng" where
  "sampleAddr6 p rng =
     (let a = As16 (Addr p);
          hostBits = 128 - Bits p
      in if hostBits = 0 then (Addr p, rng)
         else let (result, rng') = fillHost 16 hostBits a rng
              in (AddrFrom16 result, rng'))"

definition sampleAddrFromPrefix :: "prefix \<Rightarrow> rng \<Rightarrow> addr \<times> rng" where
  "sampleAddrFromPrefix p0 rng =
     (let p = Masked p0
      in if Is4 (Addr p) then sampleAddr4 p rng else sampleAddr6 p rng)"

definition SampleIP :: "prefix \<Rightarrow> rng \<Rightarrow> addr \<times> rng" where
  "SampleIP p rng = sampleAddrFromPrefix p rng"

section \<open>Head manager: prefix distance, diversity penalty and candidate score\<close>

text \<open>
  The inner loop of \<open>compareBytes\<close>, \<open>for bit := 7; bit >= 0 && matching < maxBits; bit--\<close>:
  the first argument is \<open>bit + 1\<close> (written \<open>bt\<close>).
\<close>

fun countBits :: "nat \<Rightarrow> 8 word \<Rightarrow> nat \<Rightarrow> nat \<Rightarrow> nat" where
  "countBits 0 xr matching maxBits = matching"
| "countBits (Suc bt) xr matching maxBits =
     (if matching < maxBits
      then if (drop_bit bt xr) AND 1 = 0
           then countBits bt xr (matching + 1) maxBits
           else matching
      else matching)"

text \<open>
  The outer loop of \<open>compareBytes\<close> over the bytes of both slices. The slices have the
  same length at every call (both are \<open>As4\<close> or both are \<open>As16\<close>); Go would panic on a
  shorter second slice.
\<close>

fun matchBytes :: "8 word list \<Rightarrow> 8 word list \<Rightarrow> nat \<Rightarrow> nat \<Rightarrow> nat" where
  "matchBytes [] bs matching maxBits = matching"
| "matchBytes (x # as) [] matching maxBits = matching"
| "matchBytes (x # as) (y # bs) matching maxBits =
     (if matching < maxBits
      then let xr = x XOR y
           in if xr = 0
              then let matching1 = matching + 8;
                       matching2 = (if matching1 > maxBits then maxBits else matching1)
                   in matchBytes as bs matching2 maxBits
              else countBits 8 xr matching maxBits
      else matching)"

definition compareBytes :: "8 word list \<Rightarrow> 8 word list \<Rightarrow> nat \<Rightarrow> int" where
  "compareBytes a b maxBits = int maxBits - int (matchBytes a b 0 maxBits)"

definition prefixDistance :: "prefix \<Rightarrow> prefix \<Rightarrow> int" where
  "prefixDistance a b =
     (if Is4 (Addr a) \<noteq> Is4 (Addr b) then 128
      else
        let aBits = Bits a;
            bBits = Bits b;
            minBits = (if bBits < aBits then bBits else aBits)
        in if Is4 (Addr a)
           then compareBytes (As4 (Addr a)) (As4 (Addr b)) minBits
           else compareBytes (As16 (Addr a)) (As16 (Addr b)) minBits)"

text \<open>
  \<open>computeDiversityPenalty\<close>; \<open>math.Pow\<close> with a distance that is a positive whole
  number is the power of the reals.
\<close>

fun totalPenalty :: "real \<Rightarrow> prefix \<Rightarrow> prefix list \<Rightarrow> real \<Rightarrow> real" where
  "totalPenalty repulsionDecay p [] tot = tot"
| "totalPenalty repulsionDecay p (other # rest) tot =
     (let distance = prefixDistance p other
      in if distance = 0
         then totalPenalty repulsionDecay p rest (tot + 1)
         else totalPenalty repulsionDecay p rest (tot + repulsionDecay ^ nat distance))"

definition computeDiversityPenalty :: "real \<Rightarrow> prefix \<Rightarrow> prefix list \<Rightarrow> real" where
  "computeDiversityPenalty repulsionDecay p otherFocuses =
     (if length otherFocuses = 0 then 0
      else totalPenalty repulsionDecay p otherFocuses 0 / real (length otherFocuses))"

text \<open>
  The depth bonus, computed by the same statements in \<open>SelectNextPrefix\<close> and in
  \<open>SelectBeam\<close>.
\<close>

definition depthBonus :: "prefix \<Rightarrow> real" where
  "depthBonus p =
     (let bits = int (Bits p);
          d = (if Is4 (Addr p) then real_of_int (bits - 16) / 8 * (2 / 10)
               else real_of_int (bits - 32) / 24 * (2 / 10))
      in if d < 0 then 0 else d)"

text \<open>
  The combined score of one candidate, as both selection functions compute it. The
  Thompson score \<open>tsScore\<close> (\<open>head.Sampler.SampleScore(node)\<close>) is an argument.
\<close>

definition combinedScore :: "real \<Rightarrow> real \<Rightarrow> prefix list \<Rightarrow> prefix \<Rightarrow> real \<Rightarrow> real" where
  "combinedScore diversityWeight repulsionDecay otherFocuses p tsScore =
     (let penalty = computeDiversityPenalty repulsionDecay p otherFocuses
      in tsScore * (1 + diversityWeight * penalty) * (1 - depthBonus p))"

text \<open>
  \<open>SelectNextPrefix\<close> on the candidates (leaf prefixes, each with its sampled Thompson
  score, in the order \<open>LeafNodes\<close> returned them): the first candidate of least combined
  score; \<open>None\<close> is the invalid prefix returned when there is no candidate.
\<close>

fun bestOf :: "(prefix \<times> real) \<Rightarrow> (prefix \<times> real) list \<Rightarrow> (prefix \<times> real)" where
  "bestOf best [] = best"
| "bestOf best (s # rest) = (if snd s < snd best then bestOf s rest else bestOf best rest)"

definition SelectNextPrefix ::
    "real \<Rightarrow> real \<Rightarrow> prefix list \<Rightarrow> (prefix \<times> real) list \<Rightarrow> prefix option" where
  "SelectNextPrefix diversityWeight repulsionDecay otherFocuses candidates =
     (case map (\<lambda>(p, ts). (p, combinedScore diversityWeight repulsionDecay otherFocuses p ts))
             candidates of
        [] \<Rightarrow> None
      | s # scored \<Rightarrow> Some (fst (bestOf s scored)))"

section \<open>Reference notions for the prefix distance\<close>

text \<open>
  The bits of a byte and of a byte sequence, most significant first, and the number of
  leading positions on which two bit sequences agree.
\<close>

definition byte_bits :: "8 word \<Rightarrow> bool list" where
  "byte_bits x = map (bit x) (rev [0..<8])"

definition bytes_bits :: "8 word list \<Rightarrow> bool list" where
  "bytes_bits bs = concat (map byte_bits bs)"

fun common_len :: "bool list \<Rightarrow> bool list \<Rightarrow> nat" where
  "common_len (x # xs) (y # ys) = (if x = y then Suc (common_len xs ys) else 0)"
| "common_len [] ys = 0"
| "common_len (x # xs) [] = 0"

text \<open>
  The network bits of a prefix are the first \<open>Bits\<close> bits of its address (in the byte
  form of its family); \<open>common_prefix_bits\<close> counts the leading network bits two prefixes
  share.
\<close>

definition network_bits :: "prefix \<Rightarrow> bool list" where
  "network_bits p =
     take (Bits p) (bytes_bits (if Is4 (Addr p) then As4 (Addr p) else As16 (Addr p)))"

definition common_prefix_bits :: "prefix \<Rightarrow> prefix \<Rightarrow> nat" where
  "common_prefix_bits a b = common_len (network_bits a) (network_bits b)"

section \<open>Top-N collector\<close>

text \<open>
  \<open>TopResult\<close> without its trace map and download fields, which the collector never
  reads. \<open>ScoreMS\<close> is a \<open>float64\<close>, modelled by \<open>real\<close>.
\<close>

record TopResult =
  IP :: addr
  RPrefix :: prefix
  OK :: bool
  Status :: int
  Error :: string
  ConnectMS :: int
  TLSMS :: int
  TTFBMS :: int
  TotalMS :: int
  ScoreMS :: real
  PrefixSamples :: int
  PrefixOK :: int
  PrefixFail :: int

text \<open>
  \<open>topNHeap\<close> with \<open>Less\<close> and \<open>Swap\<close>, and the operations of Go's \<open>container/heap\<close>
  on it: \<open>up\<close>, \<open>down\<close> (its loop is \<open>downLoop\<close>, which also returns the final index),
  \<open>heap.Push\<close>, \<open>heap.Pop\<close> and \<open>heap.Fix\<close>. \<open>Less\<close> is \<open>>\<close> on the score: a max-heap.
\<close>

definition Less :: "TopResult list \<Rightarrow> nat \<Rightarrow> nat \<Rightarrow> bool" where
  "Less h i j = (ScoreMS (h ! i) > ScoreMS (h ! j))"

definition Swap :: "TopResult list \<Rightarrow> nat \<Rightarrow> nat \<Rightarrow> TopResult list" where
  "Swap h i j = h[i := h ! j, j := h ! i]"

function up :: "TopResult list \<Rightarrow> nat \<Rightarrow> TopResult list" where
  "up h j =
     (let i = (j - 1) div 2
      in if i = j \<or> \<not> Less h j i then h else up (Swap h i j) i)"
  by pat_completeness auto
termination
  by (relation "measure (\<lambda>(h, j). j)") auto

function downLoop :: "TopResult list \<Rightarrow> nat \<Rightarrow> nat \<Rightarrow> TopResult list \<times> nat" where
  "downLoop h i n =
     (let j1 = 2 * i + 1
      in if j1 \<ge> n then (h, i)
         else let j2 = j1 + 1;
                  j = (if j2 < n \<and> Less h j2 j1 then j2 else j1)
              in if \<not> Less h j i then (h, i) else downLoop (Swap h i j) j n)"
  by pat_completeness auto
termination
  by (relation "measure (\<lambda>(h, i, n). n - i)") (auto simp: Let_def)

definition down :: "TopResult list \<Rightarrow> nat \<Rightarrow> nat \<Rightarrow> TopResult list \<times> bool" where
  "down h i0 n = (let (h', i) = downLoop h i0 n in (h', i > i0))"

definition Push :: "TopResult list \<Rightarrow> TopResult \<Rightarrow> TopResult list" where
  "Push h x = (let h1 = h @ [x] in up h1 (length h1 - 1))"

definition Pop :: "TopResult list \<Rightarrow> TopResult \<times> TopResult list" where
  "Pop h =
     (let n = length h - 1;
          h1 = Swap h 0 n;
          (h2, moved) = down h1 0 n
      in (h2 ! n, take n h2))"

definition Fix :: "TopResult list \<Rightarrow> nat \<Rightarrow> TopResult list" where
  "Fix h i = (let (h1, moved) = down h i (length h) in if \<not> moved then up h1 i else h1)"

text \<open>
  The collector: \<open>cap\<close> is the field \<open>n\<close>, \<open>items\<close> the heap's slice, \<open>ipSeen\<close> the map
  from an IP to its index in the heap. The mutex is not modelled.
\<close>

record TopNCollector =
  cap :: int
  items :: "TopResult list"
  ipSeen :: "addr \<Rightarrow> nat option"

definition NewTopNCollector :: "int \<Rightarrow> TopNCollector" where
  "NewTopNCollector n = \<lparr>cap = n, items = [], ipSeen = Map.empty\<rparr>"

fun rebuildLoop :: "TopResult list \<Rightarrow> nat \<Rightarrow> (addr \<Rightarrow> nat option) \<Rightarrow> (addr \<Rightarrow> nat option)" where
  "rebuildLoop [] i m = m"
| "rebuildLoop (item # rest) i m = rebuildLoop rest (i + 1) (m(IP item \<mapsto> i))"

definition rebuildIPMap :: "TopNCollector \<Rightarrow> TopNCollector" where
  "rebuildIPMap c = c\<lparr>ipSeen := rebuildLoop (items c) 0 Map.empty\<rparr>"

definition Consider :: "TopNCollector \<Rightarrow> TopResult \<Rightarrow> TopNCollector" where
  "Consider c r =
     (if cap c \<le> 0 then c
      else case ipSeen c (IP r) of
        Some idx \<Rightarrow>
          if ScoreMS r < ScoreMS (items c ! idx)
          then rebuildIPMap (c\<lparr>items := Fix ((items c)[idx := r]) idx\<rparr>)
          else c
      | None \<Rightarrow>
          if int (length (items c)) < cap c
          then rebuildIPMap (c\<lparr>items := Push (items c) r\<rparr>)
          else if ScoreMS r < ScoreMS (items c ! 0)
          then let (worst, h) = Pop (items c);
                   c1 = c\<lparr>items := h, ipSeen := (ipSeen c)(IP worst := None)\<rparr>;
                   c2 = c1\<lparr>items := Push (items c1) r\<rparr>
               in rebuildIPMap c2
          else c)"

text \<open>
  \<open>Snapshot\<close> sorts a copy of the items by selection sort: \<open>findMin\<close> is the inner loop
  over \<open>j\<close>, \<open>sortFrom\<close> the outer loop over \<open>i\<close>.
\<close>

function findMin :: "TopResult list \<Rightarrow> nat \<Rightarrow> nat \<Rightarrow> nat" where
  "findMin result minIdx j =
     (if j < length result
      then findMin result (if ScoreMS (result ! j) < ScoreMS (result ! minIdx) then j else minIdx) (j + 1)
      else minIdx)"
  by pat_completeness auto
termination
  by (relation "measure (\<lambda>(result, minIdx, j). length result - j)") auto

function sortFrom :: "TopResult list \<Rightarrow> nat \<Rightarrow> TopResult list" where
  "sortFrom result i =
     (if i < length result
      then sortFrom (Swap result i (findMin result i (i + 1))) (i + 1)
      else result)"
  by pat_completeness auto
termination
  by (relation "measure (\<lambda>(result, i). length result - i)") (auto simp: Swap_def)

declare up.simps [simp del] downLoop.simps [simp del] findMin.simps [simp del]
  sortFrom.simps [simp del]

definition Snapshot :: "TopNCollector \<Rightarrow> TopResult list" where
  "Snapshot c = sortFrom (items c) 0"

text \<open>A successful result for the IPv4 address with number \<open>a\<close> and the given score.\<close>

definition resultAt :: "nat \<Rightarrow> real \<Rightarrow> TopResult" where
  "resultAt a s = \<lparr>IP = Addr4 (word_of_nat a), RPrefix = Prefix (Addr4 0) 0, OK = True, Status = 0, Error = [],
     ConnectMS = 0, TLSMS = 0, TTFBMS = 0, TotalMS = 0, ScoreMS = s, PrefixSamples = 0, PrefixOK = 0, PrefixFail = 0\<rparr>"

section \<open>Notions used to specify the collector\<close>

text \<open>
  \<open>is_heap\<close>: no entry has a higher score than its parent. \<open>heap_but_up\<close> and
  \<open>heap_but_down\<close> are the loop invariants of \<open>up\<close> and \<open>down\<close>; \<open>topn_inv\<close> is the
  invariant of the collector.
\<close>

abbreviation sc :: "TopResult list \<Rightarrow> nat \<Rightarrow> real" where
  "sc h i \<equiv> ScoreMS (h ! i)"

definition sorted_upto :: "TopResult list \<Rightarrow> nat \<Rightarrow> bool" where
  "sorted_upto r i = (\<forall>a b. a < i \<and> a < b \<and> b < length r \<longrightarrow> sc r a \<le> sc r b)"

definition is_heap_n :: "TopResult list \<Rightarrow> nat \<Rightarrow> bool" where
  "is_heap_n h n = (\<forall>k. 0 < k \<and> k < n \<longrightarrow> sc h k \<le> sc h ((k - 1) div 2))"

definition is_heap :: "TopResult list \<Rightarrow> bool" where
  "is_heap h = is_heap_n h (length h)"

definition heap_but_up :: "TopResult list \<Rightarrow> nat \<Rightarrow> bool" where
  "heap_but_up h j =
     ((\<forall>k. 0 < k \<and> k < length h \<and> k \<noteq> j \<longrightarrow> sc h k \<le> sc h ((k - 1) div 2))
      \<and> (\<forall>k. 0 < k \<and> k < length h \<and> (k - 1) div 2 = j \<and> 0 < j
             \<longrightarrow> sc h k \<le> sc h ((j - 1) div 2)))"

definition heap_but_down :: "TopResult list \<Rightarrow> nat \<Rightarrow> nat \<Rightarrow> bool" where
  "heap_but_down h i n =
     ((\<forall>k. 0 < k \<and> k < n \<and> (k - 1) div 2 \<noteq> i \<longrightarrow> sc h k \<le> sc h ((k - 1) div 2))
      \<and> (\<forall>k. 0 < k \<and> k < n \<and> (k - 1) div 2 = i \<and> 0 < i
             \<longrightarrow> sc h k \<le> sc h ((i - 1) div 2)))"

definition topn_inv :: "TopNCollector \<Rightarrow> bool" where
  "topn_inv c =
     (0 < cap c \<and> int (length (items c)) \<le> cap c \<and> distinct (map IP (items c))
      \<and> is_heap (items c) \<and> ipSeen c = rebuildLoop (items c) 0 Map.empty)"

section \<open>Configuration\<close>

text \<open>
  A \<open>float64\<close> as far as its comparisons see it: not a number, an infinity or a number
  (rounding is not modelled). \<open>f_lt\<close> and \<open>f_le\<close> are Go's \<open><\<close> and \<open><=\<close>, which are
  false whenever an operand is not a number; \<open>x > y\<close> is \<open>f_lt y x\<close>.
\<close>

datatype float64 = NaN | NegInf | Finite real | PosInf

fun f_lt :: "float64 \<Rightarrow> float64 \<Rightarrow> bool" where
  "f_lt (Finite x) (Finite y) = (x < y)"
| "f_lt NegInf (Finite y) = True"
| "f_lt NegInf PosInf = True"
| "f_lt (Finite x) PosInf = True"
| "f_lt x y = False"

fun f_le :: "float64 \<Rightarrow> float64 \<Rightarrow> bool" where
  "f_le (Finite x) (Finite y) = (x \<le> y)"
| "f_le NegInf NaN = False"
| "f_le NegInf y = True"
| "f_le NaN PosInf = False"
| "f_le x PosInf = True"
| "f_le x y = False"

record Config =
  Budget :: int
  TopN :: int
  Concurrency :: int
  Heads :: int
  Beam :: int
  SplitStepV4 :: int
  SplitStepV6 :: int
  MinSamplesSplit :: int
  MaxBitsV4 :: int
  MaxBitsV6 :: int
  Seed :: int
  Verbose :: bool
  SplitInterval :: int
  DiversityWeight :: float64

text \<open>
  The errors \<open>Run\<close> can return: a rejected configuration (with the message up to the
  offending value), the error of the CIDR parser or reader (with its message), no CIDR
  at all, and the two context errors.
\<close>

datatype error = ConfigInvalid string | LoadError string | NoCIDR | Canceled | DeadlineExceeded

definition DefaultConfig :: Config where
  "DefaultConfig =
     \<lparr>Budget = 2000, TopN = 20, Concurrency = 200, Heads = 4, Beam = 32,
      SplitStepV4 = 2, SplitStepV6 = 4, MinSamplesSplit = 5, MaxBitsV4 = 24, MaxBitsV6 = 56,
      Seed = 0, Verbose = False, SplitInterval = 20, DiversityWeight = Finite (3 / 10)\<rparr>"

definition Validate :: "Config \<Rightarrow> error option" where
  "Validate c =
     (if Budget c \<le> 0 then Some (ConfigInvalid ''budget must be > 0'')
      else if TopN c \<le> 0 then Some (ConfigInvalid ''topN must be > 0'')
      else if Concurrency c \<le> 0 then Some (ConfigInvalid ''concurrency must be > 0'')
      else if Heads c \<le> 0 then Some (ConfigInvalid ''heads must be > 0'')
      else if Beam c \<le> 0 then Some (ConfigInvalid ''beam must be > 0'')
      else if SplitStepV4 c \<le> 0 \<or> SplitStepV4 c > 8
        then Some (ConfigInvalid ''splitStepV4 must be in [1,8]'')
      else if SplitStepV6 c \<le> 0 \<or> SplitStepV6 c > 16
        then Some (ConfigInvalid ''splitStepV6 must be in [1,16]'')
      else if MinSamplesSplit c \<le> 0 then Some (ConfigInvalid ''minSamplesSplit must be > 0'')
      else if MaxBitsV4 c \<le> 0 \<or> MaxBitsV4 c > 32
        then Some (ConfigInvalid ''maxBitsV4 must be in [1,32]'')
      else if MaxBitsV6 c \<le> 0 \<or> MaxBitsV6 c > 128
        then Some (ConfigInvalid ''maxBitsV6 must be in [1,128]'')
      else if f_lt (DiversityWeight c) (Finite 0) \<or> f_lt (Finite 1) (DiversityWeight c)
        then Some (ConfigInvalid ''diversityWeight must be in [0,1]'')
      else None)"

definition ApplyDefaults :: "Config \<Rightarrow> Config" where
  "ApplyDefaults c0 =
     (let defaults = DefaultConfig;
          c1 = (if Budget c0 \<le> 0 then c0\<lparr>Budget := Budget defaults\<rparr> else c0);
          c2 = (if TopN c1 \<le> 0 then c1\<lparr>TopN := TopN defaults\<rparr> else c1);
          c3 = (if Concurrency c2 \<le> 0 then c2\<lparr>Concurrency := Concurrency defaults\<rparr> else c2);
          c4 = (if Heads c3 \<le> 0 then c3\<lparr>Heads := Heads defaults\<rparr> else c3);
          c5 = (if Beam c4 \<le> 0 then c4\<lparr>Beam := Beam defaults\<rparr> else c4);
          c6 = (if SplitStepV4 c5 \<le> 0 then c5\<lparr>SplitStepV4 := SplitStepV4 defaults\<rparr> else c5);
          c7 = (if SplitStepV6 c6 \<le> 0 then c6\<lparr>SplitStepV6 := SplitStepV6 defaults\<rparr> else c6);
          c8 = (if MinSamplesSplit c7 \<le> 0
                then c7\<lparr>MinSamplesSplit := MinSamplesSplit defaults\<rparr> else c7);
          c9 = (if MaxBitsV4 c8 \<le> 0 then c8\<lparr>MaxBitsV4 := MaxBitsV4 defaults\<rparr> else c8);
          c10 = (if MaxBitsV6 c9 \<le> 0 then c9\<lparr>MaxBitsV6 := MaxBitsV6 defaults\<rparr> else c9);
          c11 = (if SplitInterval c10 \<le> 0
                 then c10\<lparr>SplitInterval := SplitInterval defaults\<rparr> else c10);
          c12 = (if f_le (DiversityWeight c11) (Finite 0)
                 then c11\<lparr>DiversityWeight := DiversityWeight defaults\<rparr> else c11)
      in c12)"

text \<open>
  The documented range of every option: \<open>budget\<close>, \<open>top_n\<close>, \<open>concurrency\<close>, \<open>heads\<close>,
  \<open>beam\<close>, \<open>min_samples_split\<close> and \<open>split_interval\<close> are positive, \<open>split_step_v4\<close> is
  in \<open>[1,8]\<close>, \<open>split_step_v6\<close> in \<open>[1,16]\<close>, \<open>max_bits_v4\<close> in \<open>[1,32]\<close>, \<open>max_bits_v6\<close> in
  \<open>[1,128]\<close> and \<open>diversity_weight\<close> in \<open>[0,1]\<close>; \<open>seed\<close> and \<open>verbose\<close> are free.
\<close>

definition in_range :: "Config \<Rightarrow> bool" where
  "in_range c =
     (0 < Budget c \<and> 0 < TopN c \<and> 0 < Concurrency c \<and> 0 < Heads c \<and> 0 < Beam c
      \<and> 1 \<le> SplitStepV4 c \<and> SplitStepV4 c \<le> 8 \<and> 1 \<le> SplitStepV6 c \<and> SplitStepV6 c \<le> 16
      \<and> 0 < MinSamplesSplit c
      \<and> 1 \<le> MaxBitsV4 c \<and> MaxBitsV4 c \<le> 32 \<and> 1 \<le> MaxBitsV6 c \<and> MaxBitsV6 c \<le> 128
      \<and> 0 < SplitInterval c
      \<and> f_le (Finite 0) (DiversityWeight c) \<and> f_le (DiversityWeight c) (Finite 1))"

section \<open>Arm tree\<close>

text \<open>
  The tree owns its arms through \<open>nodeMap\<close>; an arm is referred to by its (masked)
  prefix, so \<open>roots\<close>, \<open>Parent\<close> and \<open>Children\<close> hold prefixes. The map is an association
  list; the locks are not modelled.
\<close>

record ArmTree =
  roots :: "prefix list"
  nodeMap :: "(prefix \<times> ArmNode) list"
  splitStepV4 :: int
  splitStepV6 :: int
  maxBitsV4 :: int
  maxBitsV6 :: int
  minSamples :: int

fun setNode :: "prefix \<Rightarrow> ArmNode \<Rightarrow> (prefix \<times> ArmNode) list \<Rightarrow> (prefix \<times> ArmNode) list" where
  "setNode k v [] = [(k, v)]"
| "setNode k v ((k', v') # m) = (if k = k' then (k, v) # m else (k', v') # setNode k v m)"

definition newRoot :: "ArmTree \<Rightarrow> prefix \<Rightarrow> ArmTree" where
  "newRoot t p0 =
     (let p = Masked p0
      in case map_of (nodeMap t) p of
           Some node \<Rightarrow> t
         | None \<Rightarrow> t\<lparr>roots := roots t @ [p], nodeMap := setNode p (NewArmNode p None) (nodeMap t)\<rparr>)"

definition NewArmTree :: "prefix list \<Rightarrow> Config \<Rightarrow> ArmTree" where
  "NewArmTree prefixes c =
     foldl newRoot
       \<lparr>roots = [], nodeMap = [], splitStepV4 = SplitStepV4 c, splitStepV6 = SplitStepV6 c,
        maxBitsV4 = MaxBitsV4 c, maxBitsV6 = MaxBitsV6 c, minSamples = MinSamplesSplit c\<rparr>
       prefixes"

definition GetNode :: "ArmTree \<Rightarrow> prefix \<Rightarrow> ArmNode option" where
  "GetNode t p = map_of (nodeMap t) (Masked p)"

definition childrenOf :: "(prefix \<times> ArmNode) list \<Rightarrow> prefix \<Rightarrow> prefix list" where
  "childrenOf m k = (case map_of m k of Some node \<Rightarrow> Children node | None \<Rightarrow> [])"

text \<open>
  \<open>findParentLocked\<close> descends from a node into the first child that contains the
  target and is shorter than it. Every child is longer than its parent, so the descent
  has at most 129 levels; the first argument bounds it.
\<close>

fun findParentLocked ::
    "nat \<Rightarrow> (prefix \<times> ArmNode) list \<Rightarrow> prefix \<Rightarrow> prefix \<Rightarrow> prefix option" where
  "findParentLocked 0 m node target = Some node"
| "findParentLocked (Suc depth) m node target =
     (if \<not> Contains node (Addr target) then None
      else case find (\<lambda>child. Contains child (Addr target) \<and> Bits child < Bits target)
                  (childrenOf m node) of
             Some child \<Rightarrow> findParentLocked depth m child target
           | None \<Rightarrow> Some node)"

definition AddChild :: "ArmNode \<Rightarrow> prefix \<Rightarrow> ArmNode" where
  "AddChild a child = a\<lparr>Children := Children a @ [child]\<rparr>"

definition MarkSplit :: "ArmNode \<Rightarrow> ArmNode" where
  "MarkSplit a = a\<lparr>IsSplit := True\<rparr>"

definition GetOrCreateNode :: "ArmTree \<Rightarrow> prefix \<Rightarrow> prefix \<times> ArmTree" where
  "GetOrCreateNode t p0 =
     (let p = Masked p0
      in case map_of (nodeMap t) p of
           Some node \<Rightarrow> (p, t)
         | None \<Rightarrow>
             let parent =
                   (case find (\<lambda>rt. Contains rt (Addr p) \<and> Bits rt < Bits p) (roots t) of
                      Some rt \<Rightarrow> findParentLocked 129 (nodeMap t) rt p
                    | None \<Rightarrow> None);
                 t1 = t\<lparr>nodeMap := setNode p (NewArmNode p parent) (nodeMap t)\<rparr>
             in case parent of
                  Some pp \<Rightarrow>
                    (case map_of (nodeMap t1) pp of
                       Some pn \<Rightarrow> (p, t1\<lparr>nodeMap := setNode pp (AddChild pn p) (nodeMap t1)\<rparr>)
                     | None \<Rightarrow> (p, t1))
                | None \<Rightarrow> (p, t1\<lparr>roots := roots t1 @ [p]\<rparr>))"

text \<open>\<open>ArmTree.Update\<close>.\<close>

definition TreeUpdate :: "ArmTree \<Rightarrow> prefix \<Rightarrow> bool \<Rightarrow> real \<Rightarrow> real \<Rightarrow> ArmTree" where
  "TreeUpdate t p success latencyMS timeoutMS =
     (let (k, t1) = GetOrCreateNode t p
      in case map_of (nodeMap t1) k of
           Some node \<Rightarrow> t1\<lparr>nodeMap := setNode k (Update success latencyMS timeoutMS node) (nodeMap t1)\<rparr>
         | None \<Rightarrow> t1)"

definition TotalSamples :: "ArmTree \<Rightarrow> int" where
  "TotalSamples t = sum_list (map (\<lambda>(k, node). Samples node) (nodeMap t))"

definition CanSplit :: "ArmNode \<Rightarrow> int \<Rightarrow> int \<Rightarrow> int \<Rightarrow> bool" where
  "CanSplit a minSamples' maxBitsV4' maxBitsV6' =
     (if IsSplit a then False
      else if Samples a < minSamples' then False
      else let bits = int (Bits (PrefixOf a))
           in if Is4 (Addr (PrefixOf a)) then bits < maxBitsV4' else bits < maxBitsV6')"

text \<open>
  Modelled from the spec: \<open>cidr.SplitPrefix\<close> of package \<open>internal/cidr\<close>, whose
  source file is missing. \<open>split_prefix(p, step)\<close> yields the \<open>2^step\<close> children of \<open>p\<close>, each \<open>step\<close>
  bits longer, and fails if \<open>p.bits + step\<close> exceeds the width of the family.
\<close>

definition SplitPrefix :: "prefix \<Rightarrow> nat \<Rightarrow> prefix list option" where
  "SplitPrefix p step =
     (if Bits p + step > BitLen (Addr p) then None
      else Some (map (\<lambda>i. case Addr p of
                          Addr4 w \<Rightarrow> Prefix (Addr4 (w OR push_bit (32 - Bits p - step) (word_of_nat i)))
                                       (Bits p + step)
                        | Addr6 w \<Rightarrow> Prefix (Addr6 (w OR push_bit (128 - Bits p - step) (word_of_nat i)))
                                       (Bits p + step))
                  [0..<2 ^ step]))"

definition addChildNode :: "prefix \<Rightarrow> prefix list \<times> ArmTree \<Rightarrow> prefix \<Rightarrow> prefix list \<times> ArmTree" where
  "addChildNode k acc childPrefix0 =
     (let (created, t) = acc;
          childPrefix = Masked childPrefix0
      in case map_of (nodeMap t) childPrefix of
           Some existing \<Rightarrow> (created, t)
         | None \<Rightarrow>
             let m1 = setNode childPrefix (NewArmNode childPrefix (Some k)) (nodeMap t);
                 m2 = (case map_of m1 k of
                         Some node \<Rightarrow> setNode k (AddChild node childPrefix) m1
                       | None \<Rightarrow> m1)
             in (created @ [childPrefix], t\<lparr>nodeMap := m2\<rparr>))"

definition SplitNode :: "ArmTree \<Rightarrow> prefix \<Rightarrow> prefix list option \<times> ArmTree" where
  "SplitNode t k =
     (case map_of (nodeMap t) k of
        None \<Rightarrow> (None, t)
      | Some node \<Rightarrow>
          if \<not> CanSplit node (minSamples t) (maxBitsV4 t) (maxBitsV6 t) then (None, t)
          else
            let p = PrefixOf node;
                step = (if Is4 (Addr p) then splitStepV4 t else splitStepV6 t)
            in case SplitPrefix p (nat step) of
                 None \<Rightarrow> (None, t)
               | Some children \<Rightarrow>
                   if length children = 0 then (None, t)
                   else if IsSplit node then (None, t)
                   else
                     let (created, t1) = foldl (addChildNode k) ([], t) children;
                         m = (case map_of (nodeMap t1) k of
                                Some node1 \<Rightarrow> setNode k (MarkSplit node1) (nodeMap t1)
                              | None \<Rightarrow> nodeMap t1)
                     in (Some created, t1\<lparr>nodeMap := m\<rparr>))"

section \<open>Scheduler\<close>

text \<open>\<open>probe.Result\<close> without its trace map, a probe task and a completed probe.\<close>

record Result =
  rOK :: bool
  rStatus :: int
  rError :: string
  rConnectMS :: int
  rTLSMS :: int
  rTTFBMS :: int
  rTotalMS :: int

record probeTask =
  headID :: int
  taskPrefix :: prefix
  taskIP :: addr

record probeDone =
  doneTask :: probeTask
  doneResult :: Result

text \<open>
  The engine. \<open>pending\<close> holds the tasks that were sent on the task channel and whose
  result the scheduler has not yet received; \<open>calls\<close> and \<open>splitCalls\<close> count the calls
  of \<open>submitOneTask\<close> and \<open>trySplit\<close>, and \<open>processed\<close> the calls of \<open>processOneResult\<close>:
  these four fields are not in the Go struct. The head manager and the set of seen IPs
  only influence which prefix and address a task gets, which the environment supplies.
\<close>

record Engine =
  cfg :: Config
  tree :: ArmTree
  topN :: TopNCollector
  submitted :: int
  completed :: int
  pending :: "probeTask list"
  calls :: nat
  splitCalls :: nat
  processed :: nat

text \<open>
  What the program cannot determine by itself is an input of the model. \<open>ctxErr\<close> is
  the value of \<open>ctx.Err()\<close> once the context is done. For the \<open>n\<close>-th call of
  \<open>submitOneTask\<close>, \<open>picks n\<close> tells how it ends: it found no head or no valid prefix, or the task
  with the chosen prefix and the sampled address was sent, or the \<open>select\<close> took the
  branch of \<open>ctx.Done()\<close>. For the \<open>n\<close>-th call of \<open>trySplit\<close>, \<open>splitCands n\<close> is the list
  \<open>GetSplitCandidates\<close> returned. An event is what the \<open>select\<close> of the main loop
  receives: the result of the \<open>k\<close>-th pending task, or the end of the context.
\<close>

datatype ctxErr = CtxCanceled | CtxDeadlineExceeded

fun errOf :: "ctxErr \<Rightarrow> error" where
  "errOf CtxCanceled = Canceled"
| "errOf CtxDeadlineExceeded = DeadlineExceeded"

datatype pick = NoPrefix | Picked prefix addr | CtxClosed ctxErr

record Env =
  picks :: "nat \<Rightarrow> pick"
  splitCands :: "nat \<Rightarrow> prefix list"

datatype event = Done nat Result | CtxDone ctxErr

text \<open>
  The request. \<open>CIDRs\<close> and \<open>CIDRFile\<close> hold what \<open>cidr.ParseCIDRs\<close> and
  \<open>cidr.ReadCIDRsFromFile\<close> return for them, the message of an error or the prefixes
  (an empty list when the field is empty); \<open>Timeout\<close> is \<open>Probe.Timeout\<close> in nanoseconds.
\<close>

record Request =
  CIDRs :: "string + prefix list"
  CIDRFile :: "string + prefix list"
  Timeout :: int

definition TimeoutMS :: "Request \<Rightarrow> real" where
  "TimeoutMS r = (if Timeout r \<le> 0 then 3000 else real_of_int (Timeout r div 1000000))"

fun dedupPrefixes :: "prefix list \<Rightarrow> prefix list \<Rightarrow> prefix list" where
  "dedupPrefixes [] unique = unique"
| "dedupPrefixes (p0 # pfxs) unique =
     (let p = Masked p0
      in if p \<in> set unique then dedupPrefixes pfxs unique
         else dedupPrefixes pfxs (unique @ [p]))"

definition loadPrefixes :: "Request \<Rightarrow> error + prefix list" where
  "loadPrefixes req =
     (case CIDRs req of
        Inl msg \<Rightarrow> Inl (LoadError msg)
      | Inr ps1 \<Rightarrow>
          (case CIDRFile req of
             Inl msg \<Rightarrow> Inl (LoadError msg)
           | Inr ps2 \<Rightarrow> Inr (dedupPrefixes (ps1 @ ps2) [])))"

definition New :: "Config \<Rightarrow> Engine" where
  "New c =
     \<lparr>cfg = ApplyDefaults c,
      tree = \<lparr>roots = [], nodeMap = [], splitStepV4 = 0, splitStepV6 = 0, maxBitsV4 = 0,
              maxBitsV6 = 0, minSamples = 0\<rparr>,
      topN = NewTopNCollector 0,
      submitted = 0, completed = 0, pending = [], calls = 0, splitCalls = 0, processed = 0\<rparr>"

definition submitOneTask :: "Env \<Rightarrow> Engine \<Rightarrow> int \<Rightarrow> error option \<times> Engine" where
  "submitOneTask env e hid =
     (let e1 = e\<lparr>calls := calls e + 1\<rparr>
      in case picks env (calls e) of
           NoPrefix \<Rightarrow> (None, e1)
         | Picked p a \<Rightarrow>
             (None, e1\<lparr>pending := pending e1 @ [\<lparr>headID = hid, taskPrefix = p, taskIP = a\<rparr>],
                       submitted := submitted e1 + 1\<rparr>)
         | CtxClosed ce \<Rightarrow> (Some (errOf ce), e1))"

definition processOneResult :: "Engine \<Rightarrow> probeDone \<Rightarrow> real \<Rightarrow> Engine" where
  "processOneResult e d timeoutMS =
     (let t1 = TreeUpdate (tree e) (taskPrefix (doneTask d)) (rOK (doneResult d))
                 (real_of_int (rTotalMS (doneResult d))) timeoutMS;
          node = GetNode t1 (taskPrefix (doneTask d));
          (samples, successes, failures) =
             (case node of
                Some a \<Rightarrow> (Samples a, Successes a, Failures a)
              | None \<Rightarrow> (0, 0, 0));
          score = (if \<not> rOK (doneResult d) then timeoutMS * 2
                   else real_of_int (rTotalMS (doneResult d)));
          top1 = Consider (topN e)
                   \<lparr>IP = taskIP (doneTask d), RPrefix = taskPrefix (doneTask d),
                    OK = rOK (doneResult d), Status = rStatus (doneResult d),
                    Error = rError (doneResult d), ConnectMS = rConnectMS (doneResult d),
                    TLSMS = rTLSMS (doneResult d), TTFBMS = rTTFBMS (doneResult d),
                    TotalMS = rTotalMS (doneResult d), ScoreMS = score,
                    PrefixSamples = samples, PrefixOK = successes, PrefixFail = failures\<rparr>
      in e\<lparr>tree := t1, topN := top1, processed := processed e + 1\<rparr>)"

fun splitLoop :: "prefix list \<Rightarrow> int \<Rightarrow> int \<Rightarrow> ArmTree \<Rightarrow> ArmTree" where
  "splitLoop [] splitCount maxSplits t = t"
| "splitLoop (node # candidates) splitCount maxSplits t =
     (if splitCount \<ge> maxSplits then t
      else case SplitNode t node of
             (Some created, t1) \<Rightarrow> splitLoop candidates (splitCount + 1) maxSplits t1
           | (None, t1) \<Rightarrow> splitLoop candidates splitCount maxSplits t1)"

definition trySplit :: "Env \<Rightarrow> Engine \<Rightarrow> Engine" where
  "trySplit env e =
     (let candidates = splitCands env (splitCalls e);
          maxSplits = Heads (cfg e) * 2
      in e\<lparr>tree := splitLoop candidates 0 maxSplits (tree e), splitCalls := splitCalls e + 1\<rparr>)"

text \<open>
  The initial fill of \<open>schedule\<close>: the loop \<open>for i := 0; i < initialBatch; i++\<close>, with
  the number of iterations still to run as second argument.
\<close>

fun initialFill :: "Env \<Rightarrow> int \<Rightarrow> nat \<Rightarrow> Engine \<Rightarrow> error option \<times> Engine" where
  "initialFill env i 0 e = (None, e)"
| "initialFill env i (Suc k) e =
     (let hid = i mod Heads (cfg e);
          (err, e1) = submitOneTask env e hid
      in case err of
           Some er \<Rightarrow>
             if er = Canceled \<or> er = DeadlineExceeded then (Some er, e1)
             else initialFill env (i + 1) k e1
         | None \<Rightarrow> initialFill env (i + 1) k e1)"

text \<open>
  The branch \<open>case d := <-e.done\<close> of the main loop, for the result \<open>res\<close> of the
  \<open>k\<close>-th pending task: it processes the result, counts it, splits when due and submits
  a replacement task while the budget allows (an error of that call is ignored). It
  returns the new \<open>lastSplit\<close> and the engine. Logging is not modelled.
\<close>

definition handleDone :: "Env \<Rightarrow> real \<Rightarrow> int \<Rightarrow> Engine \<Rightarrow> nat \<Rightarrow> Result \<Rightarrow> int \<times> Engine" where
  "handleDone env timeoutMS lastSplit e k res =
     (let d = \<lparr>doneTask = pending e ! k, doneResult = res\<rparr>;
          e1 = e\<lparr>pending := take k (pending e) @ drop (k + 1) (pending e)\<rparr>;
          e2 = processOneResult e1 d timeoutMS;
          e3 = e2\<lparr>completed := completed e2 + 1\<rparr>;
          split = (completed e3 - lastSplit \<ge> SplitInterval (cfg e3));
          e4 = (if split then trySplit env e3 else e3);
          lastSplit1 = (if split then completed e3 else lastSplit);
          e5 = (if submitted e4 < Budget (cfg e4)
                then snd (submitOneTask env e4 (submitted e4 mod Heads (cfg e4)))
                else e4)
      in (lastSplit1, e5))"

text \<open>
  The main loop of \<open>schedule\<close> on the events its \<open>select\<close> receives. \<open>None\<close>: the events
  ran out while the loop was still waiting. An event for a task that is not pending
  cannot occur and is skipped. The result is the error of \<open>schedule\<close>, the engine and
  the events not consumed.
\<close>

fun mainLoop ::
    "Env \<Rightarrow> real \<Rightarrow> int \<Rightarrow> Engine \<Rightarrow> event list \<Rightarrow> (error option \<times> Engine \<times> event list) option" where
  "mainLoop env timeoutMS lastSplit e [] =
     (if completed e < Budget (cfg e) then None else Some (None, e, []))"
| "mainLoop env timeoutMS lastSplit e (ev # evs) =
     (if completed e < Budget (cfg e)
      then case ev of
             CtxDone ce \<Rightarrow> Some (Some (errOf ce), e, evs)
           | Done k res \<Rightarrow>
               if k < length (pending e)
               then case handleDone env timeoutMS lastSplit e k res of
                      (lastSplit1, e1) \<Rightarrow> mainLoop env timeoutMS lastSplit1 e1 evs
               else mainLoop env timeoutMS lastSplit e evs
      else Some (None, e, ev # evs))"

definition schedule ::
    "Env \<Rightarrow> Engine \<Rightarrow> real \<Rightarrow> event list \<Rightarrow> (error option \<times> Engine \<times> event list) option" where
  "schedule env e timeoutMS evs =
     (let initialBatch0 = Concurrency (cfg e) * 2;
          initialBatch = (if initialBatch0 > Budget (cfg e) then Budget (cfg e) else initialBatch0);
          (err, e1) = initialFill env 0 (nat initialBatch) e
      in case err of
           Some er \<Rightarrow> Some (Some er, e1, evs)
         | None \<Rightarrow> mainLoop env timeoutMS 0 e1 evs)"

text \<open>
  After \<open>schedule\<close>, \<open>Run\<close> drains the results that the workers still delivered: the
  remaining events.
\<close>

fun drain :: "real \<Rightarrow> Engine \<Rightarrow> event list \<Rightarrow> Engine" where
  "drain timeoutMS e [] = e"
| "drain timeoutMS e (CtxDone ce # evs) = drain timeoutMS e evs"
| "drain timeoutMS e (Done k res # evs) =
     (if k < length (pending e)
      then drain timeoutMS
             (processOneResult (e\<lparr>pending := take k (pending e) @ drop (k + 1) (pending e)\<rparr>)
                \<lparr>doneTask = pending e ! k, doneResult = res\<rparr> timeoutMS)
             evs
      else drain timeoutMS e evs)"

text \<open>
  \<open>Run\<close> up to its last statement, with the engine it leaves behind: either it returned
  early with an error, or it ran \<open>schedule\<close>, which returned the given error, and
  drained.
\<close>

datatype outcome = Rejected error | Finished "error option" Engine

definition RunTrace :: "Env \<Rightarrow> Engine \<Rightarrow> Request \<Rightarrow> event list \<Rightarrow> outcome option" where
  "RunTrace env e req evs =
     (case Validate (cfg e) of
        Some err \<Rightarrow> Some (Rejected err)
      | None \<Rightarrow>
          (case loadPrefixes req of
             Inl err \<Rightarrow> Some (Rejected err)
           | Inr prefixes \<Rightarrow>
               if length prefixes = 0 then Some (Rejected NoCIDR)
               else
                 let timeoutMS = TimeoutMS req;
                     e1 = e\<lparr>tree := NewArmTree prefixes (cfg e),
                            topN := NewTopNCollector (TopN (cfg e))\<rparr>
                 in case schedule env e1 timeoutMS evs of
                      None \<Rightarrow> None
                    | Some (err, e2, rest) \<Rightarrow> Some (Finished err (drain timeoutMS e2 rest))))"

text \<open>\<open>Run\<close>: the response and the error; \<open>None\<close> when it does not return on these events.\<close>

definition Run ::
    "Env \<Rightarrow> Engine \<Rightarrow> Request \<Rightarrow> event list \<Rightarrow> (TopResult list \<times> error option) option" where
  "Run env e req evs =
     (case RunTrace env e req evs of
        None \<Rightarrow> None
      | Some (Rejected err) \<Rightarrow> Some ([], Some err)
      | Some (Finished err e1) \<Rightarrow>
          if err \<noteq> None \<and> err \<noteq> Some Canceled \<and> err \<noteq> Some DeadlineExceeded
          then Some ([], err)
          else Some (Snapshot (topN e1), None))"

text \<open>The counters of the arm of a prefix; an absent arm has none.\<close>

definition counters :: "ArmTree \<Rightarrow> prefix \<Rightarrow> int \<times> int \<times> int" where
  "counters t k =
     (case map_of (nodeMap t) k of
        Some a \<Rightarrow> (Samples a, Successes a, Failures a)
      | None \<Rightarrow> (0, 0, 0))"

text \<open>
  The invariant of the scheduler: every processed result is counted and recorded as one
  sample, the pending tasks are those submitted and not completed, and no more tasks
  are submitted than the budget.
\<close>

definition sched_inv :: "Engine \<Rightarrow> bool" where
  "sched_inv e =
     (int (processed e) = completed e \<and> TotalSamples (tree e) = completed e
      \<and> int (length (pending e)) = submitted e - completed e
      \<and> submitted e \<le> Budget (cfg e))"

definition samplesAt :: "(prefix \<times> ArmNode) list \<Rightarrow> prefix \<Rightarrow> int" where
  "samplesAt m k = (case map_of m k of Some a \<Rightarrow> Samples a | None \<Rightarrow> 0)"

section \<open>Exploitation prefixes\<close>

text \<open>
  \<open>getExploitationPrefixes\<close>. \<open>bestScores\<close> is its first loop, which fills the map
  \<open>prefixBestScore\<close> (here in insertion order) and stops at the first result above the
  second threshold; \<open>exploitList\<close> is its second loop, \<open>for prefix, score := range
  prefixBestScore\<close>. Go visits the entries of a map in an order that the language leaves
  open and its runtime varies from one loop to the next: \<open>iter\<close> is that order, a
  rearrangement of the entries.
\<close>

fun bestScores :: "TopResult list \<Rightarrow> real \<Rightarrow> (prefix \<times> real) list \<Rightarrow> (prefix \<times> real) list" where
  "bestScores [] tier2Threshold m = m"
| "bestScores (r # rs) tier2Threshold m =
     (if ScoreMS r > tier2Threshold then m
      else if map_of m (RPrefix r) = None
           then bestScores rs tier2Threshold (m @ [(RPrefix r, ScoreMS r)])
           else bestScores rs tier2Threshold m)"

fun exploitList :: "real \<Rightarrow> (prefix \<times> real) list \<Rightarrow> prefix list \<Rightarrow> prefix list" where
  "exploitList tier1Threshold [] exploitPrefixes = exploitPrefixes"
| "exploitList tier1Threshold ((p, score) # rest) exploitPrefixes =
     (if score \<le> tier1Threshold
      then exploitList tier1Threshold rest (exploitPrefixes @ [p, p, p])
      else exploitList tier1Threshold rest (exploitPrefixes @ [p]))"

definition getExploitationPrefixes ::
    "((prefix \<times> real) list \<Rightarrow> (prefix \<times> real) list) \<Rightarrow> TopNCollector \<Rightarrow> prefix list" where
  "getExploitationPrefixes iter c =
     (let topResults = Snapshot c
      in if length topResults = 0 then []
         else
           let bestScore = ScoreMS (topResults ! 0);
               tier1Threshold = bestScore * (12 / 10);
               tier2Threshold = bestScore * (15 / 10);
               prefixBestScore = bestScores topResults tier2Threshold []
           in exploitList tier1Threshold (iter prefixBestScore) [])"

text \<open>
  The choice \<open>submitOneTask\<close> makes among the exploitation prefixes with the uniform
  draw \<open>r\<close>: \<open>None\<close> when it does not exploit. \<open>int(x)\<close> of a \<open>float64\<close> that is not
  negative is its floor.
\<close>

definition exploitChoice :: "real \<Rightarrow> real \<Rightarrow> prefix list \<Rightarrow> prefix option" where
  "exploitChoice r exploitRate exploitPrefixes =
     (if length exploitPrefixes > 0 \<and> r < exploitRate
      then let idx0 = \<lfloor>r / exploitRate * real (length exploitPrefixes)\<rfloor>;
               idx = (if idx0 \<ge> int (length exploitPrefixes)
                      then int (length exploitPrefixes) - 1 else idx0)
           in Some (exploitPrefixes ! nat idx)
      else None)"

text \<open>
  The exploitation rate of \<open>submitOneTask\<close> after \<open>completed\<close> of \<open>budget\<close> probes.
\<close>

definition exploitRate :: "int \<Rightarrow> int \<Rightarrow> real" where
  "exploitRate completed' budget =
     (let rate = 2 / 10 + 3 / 10 * real_of_int completed' / real_of_int budget
      in if rate > 5 / 10 then 5 / 10 else rate)"

section \<open>Example inputs\<close>

text \<open>
  A configuration with a budget of one probe, an environment that always picks
  \<open>10.0.0.1\<close> in \<open>10.0.0.0/30\<close>, a request for that prefix and a successful probe of
  10 ms; a configuration whose \<open>TopN\<close> is 0; two results in different prefixes; and
  the prefixes \<open>10.0.0.0/16\<close> and \<open>10.1.0.0/16\<close>.
\<close>

definition exampleConfig :: Config where
  "exampleConfig = DefaultConfig\<lparr>Budget := 1, Concurrency := 1, Heads := 1\<rparr>"

definition exampleEnv :: Env where
  "exampleEnv = \<lparr>picks = (\<lambda>n. Picked (Prefix (Addr4 0x0A000000) 30) (Addr4 0x0A000001)),
                 splitCands = (\<lambda>n. [])\<rparr>"

definition exampleRequest :: Request where
  "exampleRequest = \<lparr>CIDRs = Inr [Prefix (Addr4 0x0A000000) 30], CIDRFile = Inr [], Timeout = 0\<rparr>"

definition exampleProbe :: Result where
  "exampleProbe = \<lparr>rOK = True, rStatus = 200, rError = [], rConnectMS = 1, rTLSMS = 2,
                   rTTFBMS = 3, rTotalMS = 10\<rparr>"

definition zeroTopNConfig :: Config where
  "zeroTopNConfig = exampleConfig\<lparr>TopN := 0\<rparr>"

definition twoPrefixes :: TopNCollector where
  "twoPrefixes =
     foldl Consider (NewTopNCollector 20)
       [(resultAt 1 10)\<lparr>RPrefix := Prefix (Addr4 0x01010000) 16\<rparr>,
        (resultAt 2 14)\<lparr>RPrefix := Prefix (Addr4 0x02020000) 16\<rparr>]"

definition prefixA :: prefix where
  "prefixA = Prefix (Addr4 0x0A000000) 16"

definition prefixB :: prefix where
  "prefixB = Prefix (Addr4 0x0A010000) 16"

section \<open>Properties of the arm node\<close>

lemma Update_counters:
  "Samples (Update s x t a) = Samples a + 1"
  "Successes (Update s x t a) = (if s then Successes a + 1 else Successes a)"
  "Failures (Update s x t a) = (if s then Failures a else Failures a + 1)"
  "Alpha (Update s x t a) = (if s then Alpha a + 1 else Alpha a)"
  "Beta (Update s x t a) = (if s then Beta a else Beta a + 1)"
  "Lambda (Update s x t a) = (if s then Lambda a + 1 else Lambda a + 1 / 2)"
  by (simp_all add: Update_def UpdateSuccess_def UpdateFailure_def Let_def)

lemma arm_inv_New: "arm_inv (NewArmNode p parent)"
  by (simp add: arm_inv_def NewArmNode_def)

lemma arm_inv_Update: "arm_inv a \<Longrightarrow> arm_inv (Update s x t a)"
  by (simp add: arm_inv_def Update_counters)

lemma arm_inv_Updates: "arm_inv a \<Longrightarrow> arm_inv (Updates ops a)"
  by (induction ops arbitrary: a) (auto simp: arm_inv_Update)

text \<open>
  C2. On every arm reached from a freshly created node by any sequence of \<open>Update\<close>
  calls, \<open>samples = successes + failures\<close>, \<open>\<alpha> \<ge> 1\<close>, \<open>\<beta> \<ge> 1\<close> and \<open>\<lambda> > 0\<close>
  (indeed \<open>\<lambda> \<ge> 0.001\<close>, its prior value). One more \<open>Update\<close> adds exactly 1 to
  \<open>samples\<close> and to exactly one of \<open>successes\<close> and \<open>failures\<close>, never lowers \<open>\<alpha>\<close>
  or \<open>\<beta>\<close>, and strictly raises \<open>\<lambda>\<close>.
\<close>

theorem C2_arm_invariants:
  "(let a = Updates ops (NewArmNode p parent); a' = Update s x t a
    in Samples a = Successes a + Failures a \<and> 1 \<le> Alpha a \<and> 1 \<le> Beta a \<and> 0 < Lambda a
     \<and> 1 / 1000 \<le> Lambda a
     \<and> Samples a' = Samples a + 1
     \<and> (if s then Successes a' = Successes a + 1 \<and> Failures a' = Failures a
         else Successes a' = Successes a \<and> Failures a' = Failures a + 1)
     \<and> Alpha a \<le> Alpha a' \<and> Beta a \<le> Beta a' \<and> Lambda a < Lambda a')"
proof -
  have "arm_inv (Updates ops (NewArmNode p parent))"
    by (rule arm_inv_Updates [OF arm_inv_New])
  then show ?thesis
    by (simp add: arm_inv_def Update_counters Let_def)
qed

lemma Successes_Updates:
  "Successes (Updates ops a) = Successes a + int (length (filter fst ops))"
  by (induction ops arbitrary: a) (auto simp: Update_counters)

lemma Update_success_fields:
  "Mu (Update True x t a) = (Lambda a * Mu a + x) / (Lambda a + 1)"
  "SumSqDiff (Update True x t a) =
     (if 1 \<le> Successes a
      then SumSqDiff a
           + (x - Mu a) * (x - (Lambda a * Mu a + x) / (Lambda a + 1)) * Lambda a / (Lambda a + 1)
      else SumSqDiff a)"
  "AlphaNG (Update True x t a) = (if 1 \<le> Successes a then AlphaNG a + 1 / 2 else AlphaNG a)"
  "BetaNG (Update True x t a) =
     (if 1 \<le> Successes a
      then BetaNG a
           + 1 / 2 * ((x - Mu a) * (x - (Lambda a * Mu a + x) / (Lambda a + 1)) * Lambda a
                       / (Lambda a + 1))
      else BetaNG a)"
  by (simp_all add: Update_def UpdateSuccess_def Let_def)

lemma Update_failure_fields:
  "Mu (Update False x t a) = (Lambda a * Mu a + 1 / 2 * (2 * t)) / (Lambda a + 1 / 2)"
  "SumSqDiff (Update False x t a) = SumSqDiff a"
  "AlphaNG (Update False x t a) = AlphaNG a"
  "BetaNG (Update False x t a) = BetaNG a"
  by (simp_all add: Update_def UpdateFailure_def Let_def)

text \<open>
  C3. Let \<open>a\<close> be an arm reached from a fresh node by the calls \<open>ops\<close>. \<open>Update\<close> with
  \<open>success = true\<close> and observation \<open>x\<close> sets \<open>\<lambda>' = \<lambda> + 1\<close>,
  \<open>\<mu>' = (\<lambda>\<cdot>\<mu> + x)/\<lambda>'\<close>, adds 1 to \<open>\<alpha>\<close>, and adds
  \<open>(x - \<mu>)\<cdot>(x - \<mu>')\<cdot>\<lambda>/\<lambda>'\<close> to \<open>sum_sq_diff\<close>, 0.5 to \<open>\<alpha>_ng\<close> and half that
  product to \<open>\<beta>_ng\<close> exactly when \<open>ops\<close> already holds a success (this is the second or
  a later one); on the first success the three are unchanged. \<open>Update\<close> with
  \<open>success = false\<close> adds 1 to \<open>\<beta>\<close>, sets \<open>\<lambda>' = \<lambda> + 0.5\<close> and
  \<open>\<mu>' = (\<lambda>\<cdot>\<mu> + 0.5\<cdot>penalty)/\<lambda>'\<close> with \<open>penalty = 2\<cdot>timeout_ms\<close>, and leaves
  \<open>sum_sq_diff\<close>, \<open>\<alpha>_ng\<close> and \<open>\<beta>_ng\<close> unchanged.
\<close>

theorem C3_update_rule:
  "(let a = Updates ops (NewArmNode p parent);
        later = list_ex fst ops;
        lam1 = Lambda a + 1;
        mu1 = (Lambda a * Mu a + x) / lam1;
        inc = (x - Mu a) * (x - mu1) * Lambda a / lam1;
        s = Update True x t a;
        penalty = 2 * t;
        lam2 = Lambda a + 1 / 2;
        mu2 = (Lambda a * Mu a + 1 / 2 * penalty) / lam2;
        f = Update False x t a
    in Lambda s = lam1 \<and> Mu s = mu1 \<and> Alpha s = Alpha a + 1 \<and> Beta s = Beta a
     \<and> SumSqDiff s = (if later then SumSqDiff a + inc else SumSqDiff a)
     \<and> AlphaNG s = (if later then AlphaNG a + 1 / 2 else AlphaNG a)
     \<and> BetaNG s = (if later then BetaNG a + 1 / 2 * inc else BetaNG a)
     \<and> Beta f = Beta a + 1 \<and> Alpha f = Alpha a \<and> Lambda f = lam2 \<and> Mu f = mu2
     \<and> SumSqDiff f = SumSqDiff a \<and> AlphaNG f = AlphaNG a \<and> BetaNG f = BetaNG a)"
proof -
  have "Successes (Updates ops (NewArmNode p parent)) = int (length (filter fst ops))"
    by (simp add: Successes_Updates NewArmNode_def)
  moreover have "list_ex fst ops \<longleftrightarrow> 1 \<le> int (length (filter fst ops))"
    by (induction ops) auto
  ultimately show ?thesis
    by (simp add: Let_def Update_counters Update_success_fields Update_failure_fields)
qed

section \<open>Properties of address sampling\<close>

lemma bit_word_rcat_bytes:
  "bit (word_rcat (bs :: 8 word list) :: 'b::len word) n =
     (n < LENGTH('b) \<and> n div 8 < length bs \<and> bit (bs ! (length bs - 1 - n div 8)) (n mod 8))"
proof -
  have h: "bit (horner_sum uint 256 ws) n = (n div 8 < length ws \<and> bit (ws ! (n div 8)) (n mod 8))"
    for ws :: "8 word list"
    using bit_horner_sum_uint_exp_iff [of ws n] by simp
  show ?thesis
    by (auto simp add: word_rcat_def bit_word_of_int_iff h rev_nth)
qed

lemma length_bytes_be [simp]: "length (bytes_be k w) = k"
  by (simp add: bytes_be_def)

lemma bit_bytes_be:
  "j < k \<Longrightarrow> bit (bytes_be k w ! j) m = (m < 8 \<and> bit w (8 * (k - 1 - j) + m))"
  by (auto simp add: bytes_be_def bit_simps)

lemma rcat_bytes_be:
  "LENGTH('a) = 8 * k \<Longrightarrow> (word_rcat (bytes_be k (w :: 'a::len word)) :: 'a word) = w"
proof (rule bit_word_eqI)
  fix n assume L: "LENGTH('a) = 8 * k" and n: "n < LENGTH('a)"
  then have d: "n div 8 < k" by auto
  have e: "8 * (k - 1 - (k - 1 - n div 8)) + n mod 8 = n"
    using d by (simp add: algebra_simps)
  show "bit (word_rcat (bytes_be k w) :: 'a word) n = bit w n"
    using n d by (simp add: bit_word_rcat_bytes bit_bytes_be e)
qed

lemma bytes_be_4: 
  "bytes_be 4 w = [ucast (drop_bit 24 w), ucast (drop_bit 16 w), ucast (drop_bit 8 w), ucast w]"
  by (simp add: bytes_be_def upt_rec)

lemma base_eq:
  fixes w :: "32 word"
  shows "(push_bit 24 (ucast (bytes_be 4 w ! 0)) OR push_bit 16 (ucast (bytes_be 4 w ! 1))
      OR push_bit 8 (ucast (bytes_be 4 w ! 2)) OR ucast (bytes_be 4 w ! 3) :: 32 word) = w"
proof (rule bit_word_eqI)
  fix n assume "n < LENGTH(32)"
  then have n: "n < 32" by simp
  consider "n < 8" | "8 \<le> n" "n < 16" | "16 \<le> n" "n < 24" | "24 \<le> n" "n < 32"
    using n by linarith
  then show "bit (push_bit 24 (ucast (bytes_be 4 w ! 0)) OR push_bit 16 (ucast (bytes_be 4 w ! 1))
      OR push_bit 8 (ucast (bytes_be 4 w ! 2)) OR ucast (bytes_be 4 w ! 3) :: 32 word) n = bit w n"
    by cases (auto simp add: bytes_be_4 bit_simps)
qed

lemma sampleAddr4_eq:
  "fst (sampleAddr4 (Prefix (Addr4 w) bits) rng) =
     Addr4 (if 32 - bits = 0 then w else w OR (ucast (rng 0) AND mask (32 - bits)))"
proof -
  have "word_rcat (bytes_be 4 (w OR (ucast (rng 0) AND mask (32 - bits)))) 
        = (w OR (ucast (rng 0) AND mask (32 - bits)))"
    by (simp add: rcat_bytes_be)
  then show ?thesis
    unfolding sampleAddr4_def Let_def prefix.sel As4.simps base_eq
    by (simp add: Uint64_def AddrFrom4_def mask_eq_exp_minus_1 bytes_be_4)
qed

lemma fillHost_zero [simp]: "fillHost n 0 result rng = (result, rng)"
  by (cases n) simp_all

lemma fillHost_length: "length (fst (fillHost n br result rng)) = length result"
  by (induction n br result rng rule: fillHost.induct) (auto simp: Let_def split: prod.splits)

lemma fillHost_keeps:
  "j < n \<Longrightarrow> n \<le> length result \<Longrightarrow> k < 8 \<Longrightarrow> br \<le> 8 * (n - 1 - j) + k \<Longrightarrow>
     bit (fst (fillHost n br result rng) ! j) k = bit (result ! j) k"
proof (induction n br result rng rule: fillHost.induct)
  case (1 bitsRemaining result rng)
  then show ?case by simp
next
  case (2 i bitsRemaining result rng)
  show ?case
  proof (cases "bitsRemaining > 0")
    case False
    then show ?thesis by simp
  next
    case pos: True
    obtain r rng' where u: "Uint64 rng = (r, rng')" by (cases "Uint64 rng")
    show ?thesis
    proof (cases "bitsRemaining \<ge> 8")
      case True
      from True 2(6,5) have ji: "j < i" by (cases "j = i") auto
      have "bit (fst (fillHost i (bitsRemaining - 8) (result[i := ucast r]) rng') ! j) k
            = bit ((result[i := ucast r]) ! j) k"
        using "2.IH"(1) [OF pos True u [symmetric] refl ji] 2(4,5,6) ji by (simp add: algebra_simps)
      then show ?thesis using pos True u ji by simp
    next
      case False
      show ?thesis
      proof (cases "j = i")
        case True
        then show ?thesis using pos False u 2(4,5,6)
          by (auto simp add: Let_def bit_simps mask_eq_exp_minus_1 [symmetric])
      next
        case False
        then show ?thesis using pos \<open>\<not> bitsRemaining \<ge> 8\<close> u 2(3) by (simp add: Let_def)
      qed
    qed
  qed
qed

lemma sampleAddr6_bits:
  assumes "bits \<le> 128" "128 - bits \<le> m" "m < 128"
  shows "(case fst (sampleAddr6 (Prefix (Addr6 w) bits) rng) of
            Addr6 r \<Rightarrow> bit r m = bit w m | Addr4 r \<Rightarrow> False)"
proof (cases "128 - bits = 0")
  case True
  then show ?thesis by (simp add: sampleAddr6_def)
next
  case False
  obtain res rng' where f: "fillHost 16 (128 - bits) (bytes_be 16 w) rng = (res, rng')"
    by (cases "fillHost 16 (128 - bits) (bytes_be 16 w) rng")
  have len: "length res = 16"
    using fillHost_length [of 16 "128 - bits" "bytes_be 16 w" rng] f by simp
  have d: "m div 8 < 16" using assms by auto
  have e: "8 * (16 - 1 - (15 - m div 8)) + m mod 8 = m"
    using d by (simp add: algebra_simps)
  have "bit (fst (fillHost 16 (128 - bits) (bytes_be 16 w) rng) ! (15 - m div 8)) (m mod 8)
        = bit (bytes_be 16 w ! (15 - m div 8)) (m mod 8)"
    by (rule fillHost_keeps) (use assms d e in simp_all)
  then have "bit (res ! (15 - m div 8)) (m mod 8) = bit w m"
    using f d e by (simp add: bit_bytes_be)
  then show ?thesis
    using False f assms d by (simp add: sampleAddr6_def AddrFrom16_def bit_word_rcat_bytes len)
qed

lemma Contains4_host:
  "b \<le> 32 \<Longrightarrow> Contains (Prefix (Addr4 n) b) (Addr4 (n OR (h AND mask (32 - b))))"
proof -
  have "drop_bit (32 - b) ((n OR (h AND mask (32 - b))) XOR n) = 0"
    by (rule bit_word_eqI) (auto simp add: bit_simps)
  then show "b \<le> 32 \<Longrightarrow> ?thesis" by simp
qed

lemma Contains_self: "IsValid (Prefix a b) \<Longrightarrow> Contains (Prefix a b) a"
  by (cases a) (simp_all add: IsValid_def)

lemma sampleAddr4_inside:
  assumes "b \<le> 32"
  shows "Contains (Prefix (Addr4 n) b) (fst (sampleAddr4 (Prefix (Addr4 n) b) rng))"
proof (cases "32 - b = 0")
  case True
  then show ?thesis using assms Contains_self [of "Addr4 n" b]
    by (simp add: sampleAddr4_eq IsValid_def)
next
  case False
  then show ?thesis using Contains4_host [OF assms, of n "ucast (rng 0)"]
    by (simp add: sampleAddr4_eq)
qed

lemma sampleAddr6_is6: "\<not> Is4 (fst (sampleAddr6 (Prefix (Addr6 n) b) rng))"
  by (simp add: sampleAddr6_def AddrFrom16_def Let_def split: prod.splits)

lemma sampleAddr6_inside:
  assumes "b \<le> 128"
  shows "Contains (Prefix (Addr6 n) b) (fst (sampleAddr6 (Prefix (Addr6 n) b) rng))"
proof (cases "fst (sampleAddr6 (Prefix (Addr6 n) b) rng)")
  case (Addr4 r)
  then show ?thesis
    using sampleAddr6_is6 [of n b rng] by simp
next
  case (Addr6 r)
  have "(r XOR n) AND NOT (mask (128 - b)) = 0"
  proof (rule bit_word_eqI)
    fix m assume "m < LENGTH(128)"
    then have m: "m < 128" by simp
    show "bit ((r XOR n) AND NOT (mask (128 - b))) m = bit (0 :: 128 word) m"
    proof (cases "128 - b \<le> m")
      case True
      then show ?thesis
        using sampleAddr6_bits [OF assms True m, of n rng] Addr6 by (simp add: bit_simps)
    next
      case False
      then show ?thesis by (simp add: bit_simps)
    qed
  qed
  then show ?thesis using Addr6 assms by simp
qed

text \<open>
  C5. For every valid prefix \<open>p\<close> and every state of the random generator, \<open>SampleIP\<close>
  returns an address contained in the masked prefix: it has the family of \<open>p\<close> and its
  leading \<open>Bits p\<close> bits are those of the network address, so only host bits are drawn.
  For an IPv4 /32 and an IPv6 /128 the result is the network address itself.
\<close>

theorem C5_sample_ip_inside_prefix:
  assumes "IsValid p"
  shows "Contains (Masked p) (fst (SampleIP p rng))
     \<and> (if Bits p = BitLen (Addr p) then fst (SampleIP p rng) = Addr (Masked p) else True)"
proof (cases p)
  case (Prefix a b)
  show ?thesis
  proof (cases a)
    case (Addr4 w)
    let ?q = "Prefix (Addr4 (w AND NOT (mask (32 - b)))) b"
    have b: "b \<le> 32" using assms Prefix Addr4 by (simp add: IsValid_def)
    have e: "fst (SampleIP p rng) = fst (sampleAddr4 ?q rng)" and m: "Masked p = ?q"
      using Prefix Addr4 by (simp_all add: SampleIP_def sampleAddrFromPrefix_def Masked_def)
    have "b = 32 \<Longrightarrow> fst (sampleAddr4 ?q rng) = Addr4 (w AND NOT (mask (32 - b)))"
      by (simp add: sampleAddr4_def)
    then show ?thesis
      using sampleAddr4_inside [OF b, of "w AND NOT (mask (32 - b))" rng] Prefix Addr4
      unfolding e m by simp
  next
    case (Addr6 w)
    let ?q = "Prefix (Addr6 (w AND NOT (mask (128 - b)))) b"
    have b: "b \<le> 128" using assms Prefix Addr6 by (simp add: IsValid_def)
    have e: "fst (SampleIP p rng) = fst (sampleAddr6 ?q rng)" and m: "Masked p = ?q"
      using Prefix Addr6 by (simp_all add: SampleIP_def sampleAddrFromPrefix_def Masked_def)
    have "b = 128 \<Longrightarrow> fst (sampleAddr6 ?q rng) = Addr6 (w AND NOT (mask (128 - b)))"
      by (simp add: sampleAddr6_def)
    then show ?thesis
      using sampleAddr6_inside [OF b, of "w AND NOT (mask (128 - b))" rng] Prefix Addr6
      unfolding e m by simp
  qed
qed

theorem C5_sample_ip_witness:
  "IsValid (Prefix (Addr4 0x0A000001) 24)
   \<and> Contains (Masked (Prefix (Addr4 0x0A000001) 24))
        (fst (SampleIP (Prefix (Addr4 0x0A000001) 24) (\<lambda>n. 0xDEADBEEF12345678)))
   \<and> fst (SampleIP (Prefix (Addr4 0x0A000001) 24) (\<lambda>n. 0xDEADBEEF12345678)) = Addr4 0x0A000078"
proof -
  have v: "IsValid (Prefix (Addr4 0x0A000001) 24)"
    by (simp add: IsValid_def)
  have "fst (SampleIP (Prefix (Addr4 0x0A000001) 24) (\<lambda>n. 0xDEADBEEF12345678)) = Addr4 0x0A000078"
    by (simp add: SampleIP_def sampleAddrFromPrefix_def Masked_def sampleAddr4_eq mask_eq_exp_minus_1)
  then show ?thesis
    using v C5_sample_ip_inside_prefix [OF v, of "\<lambda>n. 0xDEADBEEF12345678"] by simp
qed

section \<open>Properties of the prefix distance\<close>

lemma xor_zero_eq: "(x XOR y = 0) = (x = y)" for x y :: "'a::len word"
proof
  assume "x XOR y = 0"
  moreover have "x = (x XOR y) XOR y"
    by (simp add: xor.assoc)
  ultimately show "x = y" by simp
next
  assume "x = y"
  then show "x XOR y = 0" by simp
qed

lemma countBits_common:
  "matching \<le> maxBits \<Longrightarrow>
   countBits k (x XOR y) matching maxBits =
     min maxBits (matching + common_len (map (bit x) (rev [0..<k])) (map (bit y) (rev [0..<k])))"
proof (induction k arbitrary: matching)
  case 0
  then show ?case by simp
next
  case (Suc k)
  have "(drop_bit k (x XOR y) AND 1 = 0) = (\<not> odd (drop_bit k (x XOR y)))"
    by (simp only: and_one_eq even_iff_mod_2_eq_zero [symmetric] not_not)
  also have "\<dots> = (\<not> bit (x XOR y) k)"
    by (simp only: bit_iff_odd_drop_bit)
  also have "\<dots> = (bit x k = bit y k)"
    by (auto simp add: bit_xor_iff)
  finally have "(drop_bit k (x XOR y) AND 1 = 0) = (bit x k = bit y k)" .
  then have b: "((drop_bit k x XOR drop_bit k y) AND 1 = 0) = (bit x k = bit y k)"
    by simp
  show ?case
  proof (cases "matching < maxBits")
    case True
    then show ?thesis using Suc.IH [of "matching + 1"] by (simp add: b)
  next
    case False
    then show ?thesis using Suc.prems by simp
  qed
qed

lemma byte_bits_inj: "byte_bits x = byte_bits y \<Longrightarrow> x = y"
proof (rule bit_word_eqI)
  fix n assume e: "byte_bits x = byte_bits y" and "n < LENGTH(8)"
  then have n: "n < 8" by simp
  then have i: "rev [0..<8] ! (7 - n) = n"
    by (simp add: rev_nth)
  have "byte_bits x ! (7 - n) = bit x n" "byte_bits y ! (7 - n) = bit y n"
    using n i by (simp_all add: byte_bits_def del: upt_Suc)
  then show "bit x n = bit y n" using e by simp
qed

lemma length_byte_bits [simp]: "length (byte_bits x) = 8"
  by (simp add: byte_bits_def)

lemma common_len_same: "common_len (u @ r1) (u @ r2) = length u + common_len r1 r2"
  by (induction u) auto

lemma common_len_diff:
  "length u = length v \<Longrightarrow> u \<noteq> v \<Longrightarrow> common_len (u @ r1) (v @ r2) = common_len u v"
  by (induction u v rule: list_induct2) auto

lemma matchBytes_common:
  "length as = length bs \<Longrightarrow> matching \<le> maxBits \<Longrightarrow>
   matchBytes as bs matching maxBits =
     min maxBits (matching + common_len (bytes_bits as) (bytes_bits bs))"
proof (induction as bs arbitrary: matching rule: list_induct2)
  case Nil
  then show ?case by (simp add: bytes_bits_def)
next
  case (Cons x as y bs)
  show ?case
  proof (cases "matching < maxBits")
    case False
    then show ?thesis using Cons.prems by simp
  next
    case lt: True
    show ?thesis
    proof (cases "x = y")
      case True
      have c: "common_len (bytes_bits (y # as)) (bytes_bits (y # bs))
               = 8 + common_len (bytes_bits as) (bytes_bits bs)"
        by (simp add: bytes_bits_def common_len_same)
      show ?thesis
      proof (cases "matching + 8 > maxBits")
        case True
        then show ?thesis
          using lt \<open>x = y\<close> Cons.IH [of maxBits] by (simp add: c Let_def)
      next
        case False
        then show ?thesis
          using lt \<open>x = y\<close> Cons.IH [of "matching + 8"] by (simp add: c Let_def add.assoc)
      qed
    next
      case False
      then have ne: "byte_bits x \<noteq> byte_bits y"
        using byte_bits_inj by blast
      have c: "common_len (bytes_bits (x # as)) (bytes_bits (y # bs))
               = common_len (byte_bits x) (byte_bits y)"
        using ne by (simp add: bytes_bits_def common_len_diff)
      have "x XOR y \<noteq> 0" using False by (simp add: xor_zero_eq)
      then show ?thesis
        using lt countBits_common [of matching maxBits 8 x y]
        by (simp add: c Let_def byte_bits_def del: upt_Suc)
    qed
  qed
qed

lemma common_len_take:
  "common_len (take n u) (take k v) = min (min n k) (common_len u v)"
proof (induction u v arbitrary: n k rule: common_len.induct)
  case (1 x xs y ys)
  then show ?case by (cases n; cases k) auto
next
  case (2 ys)
  then show ?case by simp
next
  case (3 x xs)
  then show ?case by (cases n) auto
qed

lemma length_As [simp]: "length (As4 a) = 4" "length (As16 a) = 16"
  by (cases a; simp)+

text \<open>
  C10. For two prefixes of the same family the prefix distance (used by the diversity
  penalty and by head rebalancing) is the length of the shorter prefix minus
  \<open>common_prefix_bits\<close>, the number of leading network bits the two prefixes share;
  neither the width of the family nor the configured \<open>max_bits_v4\<close> or \<open>max_bits_v6\<close>
  enters. For prefixes of different families it is 128.
\<close>

theorem C10_prefix_distance:
  "prefixDistance a b =
     (if Is4 (Addr a) = Is4 (Addr b)
      then int (min (Bits a) (Bits b)) - int (common_prefix_bits a b)
      else 128)"
proof (cases "Is4 (Addr a) = Is4 (Addr b)")
  case False
  then show ?thesis by (simp add: prefixDistance_def)
next
  case True
  have m: "(if Bits b < Bits a then Bits b else Bits a) = min (Bits a) (Bits b)"
    by (simp add: min_def)
  show ?thesis
    using True
    by (simp add: prefixDistance_def Let_def m compareBytes_def matchBytes_common
        common_prefix_bits_def network_bits_def common_len_take)
qed

text \<open>
  C10, the distance from \<open>max_bits\<close>: \<open>10.0.0.0/16\<close> and \<open>10.1.0.0/16\<close> share 15 leading
  bits and their distance is 1, whereas the width of the family gives \<open>32 - 15 = 17\<close>
  and the default \<open>max_bits_v4\<close> gives \<open>24 - 15 = 9\<close>.
\<close>

theorem C10_distance_is_not_from_max_bits:
  "Is4 (Addr prefixA) = Is4 (Addr prefixB)
   \<and> prefixDistance prefixA prefixB = 1
   \<and> common_prefix_bits prefixA prefixB = 15
   \<and> int (BitLen (Addr prefixA)) - int (common_prefix_bits prefixA prefixB) = 17
   \<and> MaxBitsV4 DefaultConfig - int (common_prefix_bits prefixA prefixB) = 9"
  by code_simp

section \<open>Properties of the candidate score\<close>

lemma depthBonus_formula:
  "depthBonus p =
     (if Is4 (Addr p) then max 0 ((real (Bits p) - 16) / 8) * (2 / 10)
      else max 0 ((real (Bits p) - 32) / 24) * (2 / 10))"
  by (auto simp add: depthBonus_def Let_def max_def field_simps)

lemma depthBonus_cap_iff:
  "(depthBonus p \<le> 2 / 10) = (if Is4 (Addr p) then Bits p \<le> 24 else Bits p \<le> 56)"
  by (auto simp add: depthBonus_formula max_def field_simps)

text \<open>
  C9. The combined score of a candidate is \<open>ts \<cdot> (1 + diversity_weight \<cdot> penalty) \<cdot>
  (1 - depth_bonus)\<close> with \<open>depth_bonus = max(0, (bits - 16)/8) \<cdot> 0.2\<close> for IPv4 and
  \<open>max(0, (bits - 32)/24) \<cdot> 0.2\<close> for IPv6. The bonus is at most 0.2 exactly for IPv4
  prefixes of at most 24 bits and IPv6 prefixes of at most 56 bits: nothing caps it, and
  the leaf \<open>10.0.0.0/30\<close> gets the bonus 0.35.
\<close>

theorem C9_depth_bonus_not_capped:
  "combinedScore diversityWeight repulsionDecay otherFocuses p ts =
     ts * (1 + diversityWeight * computeDiversityPenalty repulsionDecay p otherFocuses)
        * (1 - depthBonus p)
   \<and> depthBonus p =
       (if Is4 (Addr p) then max 0 ((real (Bits p) - 16) / 8) * (2 / 10)
        else max 0 ((real (Bits p) - 32) / 24) * (2 / 10))
   \<and> (depthBonus p \<le> 2 / 10) = (if Is4 (Addr p) then Bits p \<le> 24 else Bits p \<le> 56)
   \<and> depthBonus (Prefix (Addr4 0x0A000000) 30) = 35 / 100
   \<and> \<not> depthBonus (Prefix (Addr4 0x0A000000) 30) \<le> 2 / 10"
proof -
  have "depthBonus (Prefix (Addr4 0x0A000000) 30) = 35 / 100"
    by (simp add: depthBonus_def)
  then show ?thesis
    using depthBonus_formula [of p] depthBonus_cap_iff [of p]
    by (simp add: combinedScore_def Let_def)
qed

section \<open>Properties of the top-N collector\<close>

lemma length_Swap [simp]: "length (Swap h i j) = length h"
  by (simp add: Swap_def)

lemma mset_Swap: "i < length h \<Longrightarrow> j < length h \<Longrightarrow> mset (Swap h i j) = mset h"
  by (simp add: Swap_def mset_swap)

lemma nth_Swap:
  "i < length h \<Longrightarrow> j < length h \<Longrightarrow> k < length h \<Longrightarrow>
   Swap h i j ! k = (if k = j then h ! i else if k = i then h ! j else h ! k)"
  by (simp add: Swap_def nth_list_update)

lemma findMin_props:
  "minIdx < length r \<Longrightarrow> minIdx < j \<Longrightarrow>
     findMin r minIdx j < length r \<and> minIdx \<le> findMin r minIdx j
     \<and> sc r (findMin r minIdx j) \<le> sc r minIdx
     \<and> (\<forall>k. j \<le> k \<and> k < length r \<longrightarrow> sc r (findMin r minIdx j) \<le> sc r k)"
proof (induction r minIdx j rule: findMin.induct)
  case (1 result minIdx j)
  show ?case
  proof (cases "j < length result")
    case False
    then show ?thesis using 1(2) by (subst (1 2 3 4) findMin.simps) simp
  next
    case True
    define m where "m = (if sc result j < sc result minIdx then j else minIdx)"
    have m: "m < length result" "m < j + 1" using True 1(2,3) by (auto simp: m_def)
    note IH = "1.IH" [OF True m [unfolded m_def], folded m_def]
    have e: "findMin result minIdx j = findMin result m (j + 1)"
      using True by (subst findMin.simps) (simp add: m_def)
    have a: "sc result m \<le> sc result minIdx" "sc result m \<le> sc result j" "minIdx \<le> m"
      using 1(3) by (auto simp: m_def)
    show ?thesis
      unfolding e
    proof (intro conjI allI impI)
      show "findMin result m (j + 1) < length result" using IH by blast
      show "minIdx \<le> findMin result m (j + 1)" using IH a(3) by linarith
      show "sc result (findMin result m (j + 1)) \<le> sc result minIdx" using IH a(1) by linarith
      fix k assume k: "j \<le> k \<and> k < length result"
      show "sc result (findMin result m (j + 1)) \<le> sc result k"
      proof (cases "k = j")
        case True
        have "sc result (findMin result m (j + 1)) \<le> sc result m" using IH by blast
        then show ?thesis using a(2) True by simp
      next
        case False
        then have "j + 1 \<le> k \<and> k < length result" using k by auto
        then show ?thesis using IH by blast
      qed
    qed
  qed
qed

lemma sortFrom_length [simp]: "length (sortFrom r i) = length r"
  by (induction r i rule: sortFrom.induct) (subst sortFrom.simps, auto)

lemma sortFrom_mset: "mset (sortFrom r i) = mset r"
proof (induction r i rule: sortFrom.induct)
  case (1 result i)
  show ?case
  proof (cases "i < length result")
    case True
    have "findMin result i (i + 1) < length result"
      using findMin_props [of i result "i + 1"] True by simp
    then show ?thesis
      using True 1 by (subst sortFrom.simps) (simp add: mset_Swap)
  next
    case False
    then show ?thesis by (subst sortFrom.simps) simp
  qed
qed

lemma sortFrom_sorted:
  "sorted_upto r i \<Longrightarrow> sorted_upto (sortFrom r i) (length r)"
proof (induction r i rule: sortFrom.induct)
  case (1 result i)
  show ?case
  proof (cases "i < length result")
    case False
    then show ?thesis using 1(2) by (subst sortFrom.simps) (auto simp: sorted_upto_def)
  next
    case True
    let ?m = "findMin result i (i + 1)"
    have fm: "?m < length result" "i \<le> ?m" "sc result ?m \<le> sc result i"
      "\<And>k. i + 1 \<le> k \<Longrightarrow> k < length result \<Longrightarrow> sc result ?m \<le> sc result k"
      using findMin_props [of i result "i + 1"] True by auto
    have "sorted_upto (Swap result i ?m) (i + 1)"
      unfolding sorted_upto_def
    proof (intro allI impI)
      fix a b assume ab: "a < i + 1 \<and> a < b \<and> b < length (Swap result i ?m)"
      then have b: "b < length result" "a < length result" by auto
      show "sc (Swap result i ?m) a \<le> sc (Swap result i ?m) b"
      proof (cases "a = i")
        case True
        have "sc result ?m \<le> sc result b \<and> sc result ?m \<le> sc result i"
          using fm(3) fm(4) [of b] ab True by auto
        then show ?thesis
          using True ab b fm(1,2) \<open>i < length result\<close> by (auto simp add: nth_Swap)
      next
        case False
        then have ai: "a < i" using ab by auto
        have 1: "sc result a \<le> sc result b" "sc result a \<le> sc result i" "sc result a \<le> sc result ?m"
          using "1.prems" ai ab b fm(1,2) True by (auto simp: sorted_upto_def)
        show ?thesis
          using ai ab b fm(1,2) True 1 by (auto simp add: nth_Swap)
      qed
    qed
    from "1.IH" [OF True this] show ?thesis
      using True by (subst sortFrom.simps) simp
  qed
qed

lemma Snapshot_sorted: "sorted_wrt (\<lambda>a b. ScoreMS a \<le> ScoreMS b) (Snapshot c)"
proof -
  have "sorted_upto (items c) 0" by (simp add: sorted_upto_def)
  from sortFrom_sorted [OF this] show ?thesis
    by (auto simp add: Snapshot_def sorted_upto_def sorted_wrt_iff_nth_less)
qed

lemma Snapshot_mset: "mset (Snapshot c) = mset (items c)"
  by (simp add: Snapshot_def sortFrom_mset)

lemma par_less: "0 < (i::nat) \<Longrightarrow> (i - 1) div 2 < i"
  by arith

lemma sc_Swap:
  "i < length h \<Longrightarrow> j < length h \<Longrightarrow> k < length h \<Longrightarrow>
   sc (Swap h i j) k = (if k = j then sc h i else if k = i then sc h j else sc h k)"
  by (simp add: nth_Swap)

lemma up_length [simp]: "length (up h j) = length h"
  by (induction h j rule: up.induct) (subst up.simps, auto simp: Let_def)

lemma up_mset: "j < length h \<Longrightarrow> mset (up h j) = mset h"
proof (induction h j rule: up.induct)
  case (1 h j)
  have "(j - 1) div 2 < length h" using 1(2) by auto
  then show ?case
    using 1 by (subst up.simps) (auto simp: Let_def mset_Swap)
qed

lemma up_step:
  assumes hb: "heap_but_up h j" and j: "j < length h" and i: "i = (j - 1) div 2"
    and ne: "i \<noteq> j" and less: "Less h j i"
  shows "heap_but_up (Swap h i j) i"
proof -
  have ij: "i < j" "i < length h" "0 < j" using i ne j by auto
  have lt: "sc h i < sc h j" using less by (simp add: Less_def)
  have hb1: "\<And>k. 0 < k \<Longrightarrow> k < length h \<Longrightarrow> k \<noteq> j \<Longrightarrow> sc h k \<le> sc h ((k - 1) div 2)"
    using hb by (simp add: heap_but_up_def)
  have hb2: "\<And>k. 0 < k \<Longrightarrow> k < length h \<Longrightarrow> (k - 1) div 2 = j \<Longrightarrow> sc h k \<le> sc h i"
    using hb ij i by (simp add: heap_but_up_def)
  show ?thesis
    unfolding heap_but_up_def
  proof (intro conjI allI impI)
    fix k assume k: "0 < k \<and> k < length (Swap h i j) \<and> k \<noteq> i"
    then have kl: "k < length h" "(k - 1) div 2 < length h" by auto
    show "sc (Swap h i j) k \<le> sc (Swap h i j) ((k - 1) div 2)"
    proof (cases "k = j")
      case True
      then show ?thesis using ij j lt i by (simp add: sc_Swap)
    next
      case False
      consider "(k - 1) div 2 = i" | "(k - 1) div 2 = j" | "(k - 1) div 2 \<noteq> i" "(k - 1) div 2 \<noteq> j"
        by blast
      then show ?thesis
      proof cases
        case 1
        then show ?thesis using False k kl ij j lt hb1 [of k] by (simp add: sc_Swap)
      next
        case 2
        then show ?thesis using False k kl ij j hb2 [of k] by (simp add: sc_Swap)
      next
        case 3
        then show ?thesis using False k kl ij j hb1 [of k] by (simp add: sc_Swap)
      qed
    qed
  next
    fix k assume k: "0 < k \<and> k < length (Swap h i j) \<and> (k - 1) div 2 = i \<and> 0 < i"
    then have kl: "k < length h" "k \<noteq> i" by auto
    have "0 < i" using k by simp
    then have pi: "(i - 1) div 2 < i" "(i - 1) div 2 < length h" "(i - 1) div 2 \<noteq> j"
      using par_less [of i] ij by linarith+
    have 1: "sc h i \<le> sc h ((i - 1) div 2)" using hb1 [of i] k ij by simp
    show "sc (Swap h i j) k \<le> sc (Swap h i j) ((i - 1) div 2)"
    proof (cases "k = j")
      case True
      then show ?thesis using ij j pi 1 by (simp add: sc_Swap)
    next
      case False
      then show ?thesis using ij j pi 1 k kl hb1 [of k] by (simp add: sc_Swap)
    qed
  qed
qed

lemma up_heap: "heap_but_up h j \<Longrightarrow> j < length h \<Longrightarrow> is_heap (up h j)"
proof (induction h j rule: up.induct)
  case (1 h j)
  let ?i = "(j - 1) div 2"
  show ?case
  proof (cases "?i = j \<or> \<not> Less h j ?i")
    case True
    have "is_heap h"
      unfolding is_heap_def is_heap_n_def
    proof (intro allI impI)
      fix k assume k: "0 < k \<and> k < length h"
      show "sc h k \<le> sc h ((k - 1) div 2)"
      proof (cases "k = j")
        case False
        then show ?thesis using "1.prems"(1) k by (simp add: heap_but_up_def)
      next
        case kj: True
        then have "?i \<noteq> j" using k by auto
        then show ?thesis using True kj by (simp add: Less_def)
      qed
    qed
    then show ?thesis using True by (subst up.simps) (simp add: Let_def)
  next
    case False
    then have ne: "?i \<noteq> j" and less: "Less h j ?i" by auto
    have "heap_but_up (Swap h ?i j) ?i"
      by (rule up_step [OF "1.prems"(1,2) refl ne less])
    moreover have "?i < length (Swap h ?i j)" using "1.prems"(2) by auto
    ultimately have "is_heap (up (Swap h ?i j) ?i)"
      using "1.IH" [OF refl False] by blast
    then show ?thesis using False by (subst up.simps) (simp add: Let_def)
  qed
qed

lemma is_heap_imp_but_up: "is_heap h \<Longrightarrow> heap_but_up h j"
proof -
  assume h: "is_heap h"
  have a: "\<And>k. 0 < k \<Longrightarrow> k < length h \<Longrightarrow> sc h k \<le> sc h ((k - 1) div 2)"
    using h by (simp add: is_heap_def is_heap_n_def)
  show ?thesis
    unfolding heap_but_up_def
  proof (intro conjI allI impI)
    fix k assume "0 < k \<and> k < length h \<and> k \<noteq> j"
    then show "sc h k \<le> sc h ((k - 1) div 2)" using a by blast
  next
    fix k assume k: "0 < k \<and> k < length h \<and> (k - 1) div 2 = j \<and> 0 < j"
    then have "j < length h" by auto
    then have "sc h j \<le> sc h ((j - 1) div 2)" using a [of j] k by blast
    moreover have "sc h k \<le> sc h j" using a [of k] k by auto
    ultimately show "sc h k \<le> sc h ((j - 1) div 2)" by linarith
  qed
qed

lemma downLoop_cases:
  fixes h :: "TopResult list" and i n :: nat
  obtains (stop1) "n \<le> 2 * i + 1" "downLoop h i n = (h, i)"
  | (stop2) j where "2 * i + 1 < n"
      "j = (if 2 * i + 2 < n \<and> Less h (2 * i + 2) (2 * i + 1) then 2 * i + 2 else 2 * i + 1)"
      "\<not> Less h j i" "downLoop h i n = (h, i)"
  | (step) j where "2 * i + 1 < n"
      "j = (if 2 * i + 2 < n \<and> Less h (2 * i + 2) (2 * i + 1) then 2 * i + 2 else 2 * i + 1)"
      "Less h j i" "downLoop h i n = downLoop (Swap h i j) j n"
proof (cases "n \<le> 2 * i + 1")
  case True
  have "downLoop h i n = (h, i)"
    using True by (subst downLoop.simps) (simp add: Let_def)
  then show ?thesis using stop1 True by blast
next
  case False
  define j where "j = (if 2 * i + 2 < n \<and> Less h (2 * i + 2) (2 * i + 1) then 2 * i + 2 else 2 * i + 1)"
  have e: "downLoop h i n = (if \<not> Less h j i then (h, i) else downLoop (Swap h i j) j n)"
    using False by (subst downLoop.simps) (simp add: Let_def j_def)
  show ?thesis
  proof (cases "Less h j i")
    case True
    then show ?thesis using step [of j] False e j_def by simp
  next
    case nl: False
    then show ?thesis using stop2 [of j] False e j_def by simp
  qed
qed

lemma downLoop_induct [case_names step]:
  fixes h :: "TopResult list" and i n :: nat
  assumes "\<And>h i n. (\<And>j. 2 * i + 1 < n \<Longrightarrow>
      j = (if 2 * i + 2 < n \<and> Less h (2 * i + 2) (2 * i + 1) then 2 * i + 2 else 2 * i + 1) \<Longrightarrow>
      Less h j i \<Longrightarrow> P (Swap h i j) j n) \<Longrightarrow> P h i n"
  shows "P h i n"
proof (induction h i n rule: downLoop.induct)
  case (1 h i n)
  show ?case
  proof (rule assms)
    fix j assume a: "2 * i + 1 < n"
      "j = (if 2 * i + 2 < n \<and> Less h (2 * i + 2) (2 * i + 1) then 2 * i + 2 else 2 * i + 1)"
      "Less h j i"
    have j': "j = (if 2 * i + 1 + 1 < n \<and> Less h (2 * i + 1 + 1) (2 * i + 1)
                   then 2 * i + 1 + 1 else 2 * i + 1)"
      using a(2) by simp
    have n1: "\<not> n \<le> 2 * i + 1" using a(1) by simp
    have l: "\<not> \<not> Less h j i" using a(3) by simp
    show "P (Swap h i j) j n"
      by (rule "1.IH" [OF refl n1 refl j' l])
  qed
qed

lemma downLoop_length [simp]: "length (fst (downLoop h i n)) = length h"
proof (induction h i n rule: downLoop_induct)
  case (step h i n)
  show ?case
  proof (cases rule: downLoop_cases [where h = h and i = i and n = n])
    case stop1
    then show ?thesis by simp
  next
    case (stop2 j)
    then show ?thesis by simp
  next
    case (step j)
    then show ?thesis using step.IH [of j] by simp
  qed
qed

lemma downLoop_mset: "n \<le> length h \<Longrightarrow> mset (fst (downLoop h i n)) = mset h"
proof (induction h i n rule: downLoop_induct)
  case (step h i n)
  show ?case
  proof (cases rule: downLoop_cases [where h = h and i = i and n = n])
    case stop1
    then show ?thesis by simp
  next
    case (stop2 j)
    then show ?thesis by simp
  next
    case (step j)
    have jn: "j < n" "i < j" using step(1,2) by (auto split: if_splits)
    have "mset (fst (downLoop (Swap h i j) j n)) = mset (Swap h i j)"
      using step.IH [of j] step step.prems by simp
    then show ?thesis using step jn step.prems by (simp add: mset_Swap)
  qed
qed

lemma downLoop_above:
  "n \<le> length h \<Longrightarrow> n \<le> k \<Longrightarrow> fst (downLoop h i n) ! k = h ! k"
proof (induction h i n rule: downLoop_induct)
  case (step h i n)
  show ?case
  proof (cases rule: downLoop_cases [where h = h and i = i and n = n])
    case stop1
    then show ?thesis by simp
  next
    case (stop2 j)
    then show ?thesis by simp
  next
    case (step j)
    have jn: "j < n" "i < j" using step(1,2) by (auto split: if_splits)
    have "fst (downLoop (Swap h i j) j n) ! k = Swap h i j ! k"
      using step.IH [of j] step step.prems by simp
    then show ?thesis using step jn step.prems by (simp add: Swap_def)
  qed
qed

lemma down_step:
  assumes hb: "heap_but_down h i n" and n: "n \<le> length h" and c: "2 * i + 1 < n"
    and j: "j = (if 2 * i + 2 < n \<and> Less h (2 * i + 2) (2 * i + 1) then 2 * i + 2 else 2 * i + 1)"
    and less: "Less h j i"
  shows "heap_but_down (Swap h i j) j n"
proof -
  have ij: "i < j" "j < n" "j < length h" "i < length h" "(j - 1) div 2 = i"
    using c j n by (auto split: if_splits)
  have lt: "sc h i < sc h j" using less by (simp add: Less_def)
  have hb1: "\<And>k. 0 < k \<Longrightarrow> k < n \<Longrightarrow> (k - 1) div 2 \<noteq> i \<Longrightarrow> sc h k \<le> sc h ((k - 1) div 2)"
    using hb by (simp add: heap_but_down_def)
  have hb2: "\<And>k. 0 < k \<Longrightarrow> k < n \<Longrightarrow> (k - 1) div 2 = i \<Longrightarrow> 0 < i \<Longrightarrow> sc h k \<le> sc h ((i - 1) div 2)"
    using hb by (simp add: heap_but_down_def)
  have sib: "\<And>k. 0 < k \<Longrightarrow> k < n \<Longrightarrow> (k - 1) div 2 = i \<Longrightarrow> sc h k \<le> sc h j"
  proof -
    fix k assume k: "0 < k" "k < n" "(k - 1) div 2 = i"
    then consider "k = 2 * i + 1" | "k = 2 * i + 2" by arith
    then show "sc h k \<le> sc h j"
    proof cases
      case 1
      then show ?thesis using j by (auto simp: Less_def)
    next
      case 2
      then show ?thesis using j k by (auto simp: Less_def)
    qed
  qed
  show ?thesis
    unfolding heap_but_down_def
  proof (intro conjI allI impI)
    fix k assume k: "0 < k \<and> k < n \<and> (k - 1) div 2 \<noteq> j"
    then have kl: "k < length h" "(k - 1) div 2 < length h" using n by auto
    consider "k = j" | "k = i" | "k \<noteq> i" "k \<noteq> j" "(k - 1) div 2 = i"
      | "k \<noteq> i" "k \<noteq> j" "(k - 1) div 2 \<noteq> i"
      by blast
    then show "sc (Swap h i j) k \<le> sc (Swap h i j) ((k - 1) div 2)"
    proof cases
      case 1
      then show ?thesis using ij lt by (simp add: sc_Swap)
    next
      case 2
      then have i0: "0 < i" using k by simp
      then have pi: "(i - 1) div 2 < i" "(i - 1) div 2 < length h" "(i - 1) div 2 \<noteq> j"
        using par_less [of i] ij by linarith+
      show ?thesis using 2 ij pi hb2 [of j] i0 by (simp add: sc_Swap)
    next
      case 3
      then show ?thesis using ij kl k sib [of k] by (simp add: sc_Swap)
    next
      case 4
      then show ?thesis using ij kl k hb1 [of k] by (simp add: sc_Swap)
    qed
  next
    fix k assume k: "0 < k \<and> k < n \<and> (k - 1) div 2 = j \<and> 0 < j"
    then have kl: "k < length h" "k \<noteq> i" "k \<noteq> j" "(k - 1) div 2 \<noteq> i" using n ij by auto
    show "sc (Swap h i j) k \<le> sc (Swap h i j) ((j - 1) div 2)"
      using ij kl k hb1 [of k] by (simp add: sc_Swap)
  qed
qed

lemma downLoop_heap:
  "heap_but_down h i n \<Longrightarrow> n \<le> length h \<Longrightarrow> is_heap_n (fst (downLoop h i n)) n"
proof (induction h i n rule: downLoop_induct)
  case (step h i n)
  have hb1: "\<And>k. 0 < k \<Longrightarrow> k < n \<Longrightarrow> (k - 1) div 2 \<noteq> i \<Longrightarrow> sc h k \<le> sc h ((k - 1) div 2)"
    using step.prems(1) by (simp add: heap_but_down_def)
  show ?case
  proof (cases rule: downLoop_cases [where h = h and i = i and n = n])
    case stop1
    have "is_heap_n h n"
      unfolding is_heap_n_def
    proof (intro allI impI)
      fix k assume k: "0 < k \<and> k < n"
      then have "(k - 1) div 2 \<noteq> i" using stop1(1) by arith
      then show "sc h k \<le> sc h ((k - 1) div 2)" using hb1 k by blast
    qed
    then show ?thesis using stop1 by simp
  next
    case (stop2 j)
    have "is_heap_n h n"
      unfolding is_heap_n_def
    proof (intro allI impI)
      fix k assume k: "0 < k \<and> k < n"
      show "sc h k \<le> sc h ((k - 1) div 2)"
      proof (cases "(k - 1) div 2 = i")
        case False
        then show ?thesis using hb1 k by blast
      next
        case True
        then consider "k = 2 * i + 1" | "k = 2 * i + 2" using k by arith
        then show ?thesis
        proof cases
          case 1
          then show ?thesis using stop2(2,3) True by (auto simp: Less_def split: if_splits)
        next
          case 2
          then show ?thesis using stop2(2,3) True k by (auto simp: Less_def split: if_splits)
        qed
      qed
    qed
    then show ?thesis using stop2 by simp
  next
    case (step j)
    have "heap_but_down (Swap h i j) j n"
      by (rule down_step [OF step.prems step(1,2,3)])
    then have "is_heap_n (fst (downLoop (Swap h i j) j n)) n"
      using step.IH [of j] step step.prems by simp
    then show ?thesis using step by simp
  qed
qed

lemma root_max: "is_heap h \<Longrightarrow> k < length h \<Longrightarrow> sc h k \<le> sc h 0"
proof (induction k rule: less_induct)
  case (less k)
  show ?case
  proof (cases "k = 0")
    case True
    then show ?thesis by simp
  next
    case False
    then have p: "(k - 1) div 2 < k" using par_less [of k] by simp
    have "sc h k \<le> sc h ((k - 1) div 2)"
      using less.prems False by (simp add: is_heap_def is_heap_n_def)
    moreover have "sc h ((k - 1) div 2) \<le> sc h 0"
      using less.IH [OF p less.prems(1)] p less.prems(2) by simp
    ultimately show ?thesis by linarith
  qed
qed

lemma Push_length [simp]: "length (Push h x) = length h + 1"
  by (simp add: Push_def Let_def)

lemma Push_mset: "mset (Push h x) = add_mset x (mset h)"
  by (simp add: Push_def Let_def up_mset)

lemma Push_heap: "is_heap h \<Longrightarrow> is_heap (Push h x)"
proof -
  assume h: "is_heap h"
  have a: "\<And>k. 0 < k \<Longrightarrow> k < length h \<Longrightarrow> sc h k \<le> sc h ((k - 1) div 2)"
    using h by (simp add: is_heap_def is_heap_n_def)
  have "heap_but_up (h @ [x]) (length h)"
    unfolding heap_but_up_def
  proof (intro conjI allI impI)
    fix k assume k: "0 < k \<and> k < length (h @ [x]) \<and> k \<noteq> length h"
    then have "k < length h" "(k - 1) div 2 < length h" using par_less [of k] by auto
    then show "sc (h @ [x]) k \<le> sc (h @ [x]) ((k - 1) div 2)"
      using a [of k] k by (simp add: nth_append)
  next
    fix k assume k: "0 < k \<and> k < length (h @ [x]) \<and> (k - 1) div 2 = length h \<and> 0 < length h"
    then have False using par_less [of k] by auto
    then show "sc (h @ [x]) k \<le> sc (h @ [x]) ((length h - 1) div 2)" ..
  qed
  then show ?thesis
    using up_heap [of "h @ [x]" "length h"] by (simp add: Push_def Let_def)
qed

lemma Pop_props:
  assumes "h \<noteq> []"
  shows "fst (Pop h) = h ! 0"
    and "mset h = add_mset (h ! 0) (mset (snd (Pop h)))"
    and "length (snd (Pop h)) = length h - 1"
    and "is_heap h \<Longrightarrow> is_heap (snd (Pop h))"
proof -
  define n where "n = length h - 1"
  define h1 where "h1 = Swap h 0 n"
  define h2 where "h2 = fst (downLoop h1 0 n)"
  have n: "n < length h" "length h = n + 1" using assms by (auto simp: n_def)
  have l1: "length h1 = n + 1" using n by (simp add: h1_def)
  have l2: "length h2 = n + 1" using l1 by (simp add: h2_def)
  have P: "Pop h = (h2 ! n, take n h2)"
    by (simp add: Pop_def Let_def down_def n_def h1_def h2_def split: prod.splits)
  have "h2 ! n = h1 ! n"
    unfolding h2_def using l1 by (intro downLoop_above) auto
  also have "\<dots> = h ! 0" using n by (simp add: h1_def Swap_def)
  finally have x: "h2 ! n = h ! 0" .
  show "fst (Pop h) = h ! 0" using P x by simp
  have m2: "mset h2 = mset h"
    unfolding h2_def using l1 n by (simp add: downLoop_mset h1_def mset_Swap)
  have "h2 = take n h2 @ [h2 ! n]"
    using l2 by (metis Suc_eq_plus1 lessI take_Suc_conv_app_nth take_all order_refl)
  then have "mset h2 = add_mset (h2 ! n) (mset (take n h2))"
    by (metis mset.simps(2) mset_append add_mset_add_single union_mset_add_mset_right add.right_neutral mset.simps(1))
  then show "mset h = add_mset (h ! 0) (mset (snd (Pop h)))"
    using P x m2 by simp
  show "length (snd (Pop h)) = length h - 1" using P l2 n by simp
  show "is_heap (snd (Pop h))" if h: "is_heap h"
  proof -
    have a: "\<And>k. 0 < k \<Longrightarrow> k < length h \<Longrightarrow> sc h k \<le> sc h ((k - 1) div 2)"
      using h by (simp add: is_heap_def is_heap_n_def)
    have "heap_but_down h1 0 n"
      unfolding heap_but_down_def
    proof (intro conjI allI impI)
      fix k assume k: "0 < k \<and> k < n \<and> (k - 1) div 2 \<noteq> 0"
      then have "(k - 1) div 2 < k" using par_less [of k] by simp
      then show "sc h1 k \<le> sc h1 ((k - 1) div 2)"
        using k n a [of k] by (simp add: h1_def sc_Swap)
    next
      fix k assume "0 < k \<and> k < n \<and> (k - 1) div 2 = 0 \<and> 0 < (0::nat)"
      then show "sc h1 k \<le> sc h1 ((0 - 1) div 2)" by simp
    qed
    then have "is_heap_n h2 n"
      unfolding h2_def using l1 by (intro downLoop_heap) auto
    then have "is_heap (take n h2)"
      using l2 par_less by (auto simp add: is_heap_def is_heap_n_def)
    then show ?thesis using P by simp
  qed
qed

lemma Fix_length [simp]: "length (Fix h i) = length h"
  by (simp add: Fix_def down_def Let_def split: prod.splits)
    (metis downLoop_length fst_conv)

lemma Fix_mset: "i < length h \<Longrightarrow> mset (Fix h i) = mset h"
proof -
  assume i: "i < length h"
  have "mset (fst (downLoop h i (length h))) = mset h"
    by (simp add: downLoop_mset)
  moreover have "mset (up (fst (downLoop h i (length h))) i) = mset (fst (downLoop h i (length h)))"
    using i by (simp add: up_mset)
  ultimately show ?thesis
    by (auto simp add: Fix_def down_def Let_def split: prod.splits)
qed

lemma Fix_heap:
  assumes g: "is_heap g" and idx: "idx < length g" and le: "ScoreMS r \<le> sc g idx"
  shows "is_heap (Fix (g[idx := r]) idx)"
proof -
  let ?h = "g[idx := r]"
  have a: "\<And>k. 0 < k \<Longrightarrow> k < length g \<Longrightarrow> sc g k \<le> sc g ((k - 1) div 2)"
    using g by (simp add: is_heap_def is_heap_n_def)
  have "heap_but_down ?h idx (length ?h)"
    unfolding heap_but_down_def
  proof (intro conjI allI impI)
    fix k assume k: "0 < k \<and> k < length ?h \<and> (k - 1) div 2 \<noteq> idx"
    then have p: "(k - 1) div 2 < k" using par_less [of k] by simp
    show "sc ?h k \<le> sc ?h ((k - 1) div 2)"
    proof (cases "k = idx")
      case True
      then show ?thesis using k p a [of k] le idx by (simp add: nth_list_update)
    next
      case False
      then show ?thesis using k p a [of k] by (simp add: nth_list_update)
    qed
  next
    fix k assume k: "0 < k \<and> k < length ?h \<and> (k - 1) div 2 = idx \<and> 0 < idx"
    then have p: "(k - 1) div 2 < k" "(idx - 1) div 2 < idx"
      using par_less [of k] par_less [of idx] by simp_all
    have "sc g k \<le> sc g idx" using a [of k] k by auto
    moreover have "sc g idx \<le> sc g ((idx - 1) div 2)" using a [of idx] k idx by auto
    ultimately show "sc ?h k \<le> sc ?h ((idx - 1) div 2)"
      using k p by (simp add: nth_list_update)
  qed
  then have "is_heap_n (fst (downLoop ?h idx (length ?h))) (length ?h)"
    by (intro downLoop_heap) auto
  then have h1: "is_heap (fst (downLoop ?h idx (length ?h)))"
    by (simp add: is_heap_def)
  then have "is_heap (up (fst (downLoop ?h idx (length ?h))) idx)"
    using up_heap [OF is_heap_imp_but_up [OF h1], of idx] idx by simp
  then show ?thesis
    using h1 by (auto simp add: Fix_def down_def Let_def split: prod.splits)
qed

lemma rebuildLoop_absent:
  "ip \<notin> IP ` set xs \<Longrightarrow> rebuildLoop xs k m ip = m ip"
  by (induction xs arbitrary: k m) auto

lemma rebuildLoop_present:
  "distinct (map IP xs) \<Longrightarrow> i < length xs \<Longrightarrow> rebuildLoop xs k m (IP (xs ! i)) = Some (k + i)"
proof (induction xs arbitrary: k m i)
  case Nil
  then show ?case by simp
next
  case (Cons x xs)
  have d: "distinct (map IP xs)" "IP x \<notin> IP ` set xs" using Cons.prems by auto
  show ?case
  proof (cases i)
    case 0
    then show ?thesis using rebuildLoop_absent [OF d(2)] by simp
  next
    case (Suc i')
    then show ?thesis using Cons.IH [OF d(1), of i' "k + 1"] Cons.prems(2) by simp
  qed
qed

lemma topn_inv_New: "0 < n \<Longrightarrow> topn_inv (NewTopNCollector n)"
  by (simp add: topn_inv_def NewTopNCollector_def is_heap_def is_heap_n_def)

lemma perm_distinct_IP: "mset a = mset b \<Longrightarrow> distinct (map IP a) = distinct (map IP b)"
proof -
  assume "mset a = mset b"
  then have "mset (map IP a) = mset (map IP b)" by simp
  then show ?thesis by (rule mset_eq_imp_distinct_iff)
qed

lemma ipSeen_Some:
  assumes "topn_inv c" "ipSeen c ip = Some idx"
  shows "idx < length (items c) \<and> IP (items c ! idx) = ip"
proof (cases "ip \<in> IP ` set (items c)")
  case False
  then show ?thesis using assms rebuildLoop_absent [of ip "items c" 0 Map.empty]
    by (simp add: topn_inv_def)
next
  case True
  then obtain i where i: "i < length (items c)" "IP (items c ! i) = ip"
    by (auto simp: in_set_conv_nth)
  then have "ipSeen c ip = Some i"
    using assms(1) rebuildLoop_present [of "items c" i 0 Map.empty] by (auto simp: topn_inv_def)
  then show ?thesis using i assms(2) by simp
qed

lemma ipSeen_None:
  assumes "topn_inv c" "ipSeen c ip = None"
  shows "ip \<notin> IP ` set (items c)"
proof
  assume "ip \<in> IP ` set (items c)"
  then obtain i where i: "i < length (items c)" "IP (items c ! i) = ip"
    by (auto simp: in_set_conv_nth)
  then have "ipSeen c ip = Some i"
    using assms(1) rebuildLoop_present [of "items c" i 0 Map.empty] by (auto simp: topn_inv_def)
  then show False using assms(2) by simp
qed

lemma find_IP_Some:
  assumes "distinct (map IP xs)" "idx < length xs" "IP (xs ! idx) = ip"
  shows "find (\<lambda>x. IP x = ip) xs = Some (xs ! idx)"
proof -
  have "IP (xs ! j) \<noteq> ip" if j: "j < idx" for j
  proof
    assume "IP (xs ! j) = ip"
    then have "map IP xs ! j = map IP xs ! idx" using assms j by simp
    moreover have "j < length (map IP xs)" "idx < length (map IP xs)" using assms j by simp_all
    ultimately have "j = idx" using assms(1) by (simp only: nth_eq_iff_index_eq)
    then show False using j by simp
  qed
  then have "idx < length xs \<and> IP (xs ! idx) = ip \<and> xs ! idx = xs ! idx
             \<and> (\<forall>j<idx. \<not> IP (xs ! j) = ip)"
    using assms by blast
  then show ?thesis
    unfolding find_Some_iff by blast
qed

lemma find_IP_None: "ip \<notin> IP ` set xs \<Longrightarrow> find (\<lambda>x. IP x = ip) xs = None"
  by (auto simp add: find_None_iff)

lemma rebuild_inv:
  "0 < cap c \<Longrightarrow> int (length (items c)) \<le> cap c \<Longrightarrow> distinct (map IP (items c))
   \<Longrightarrow> is_heap (items c) \<Longrightarrow> topn_inv (rebuildIPMap c)"
  by (simp add: topn_inv_def rebuildIPMap_def)

lemma Consider_dup:
  assumes inv: "topn_inv c" and s: "ipSeen c (IP r) = Some idx"
  shows "ScoreMS r < sc (items c) idx \<Longrightarrow>
           topn_inv (Consider c r)
           \<and> mset (items (Consider c r)) = add_mset r (mset (items c) - {#items c ! idx#})"
    and "\<not> ScoreMS r < sc (items c) idx \<Longrightarrow> Consider c r = c"
proof -
  have i: "idx < length (items c)" "IP (items c ! idx) = IP r"
    using ipSeen_Some [OF inv s] by auto
  have c: "0 < cap c" using inv by (simp add: topn_inv_def)
  show "Consider c r = c" if "\<not> ScoreMS r < sc (items c) idx"
    using that c s by (simp add: Consider_def)
  show "topn_inv (Consider c r)
        \<and> mset (items (Consider c r)) = add_mset r (mset (items c) - {#items c ! idx#})"
    if lt: "ScoreMS r < sc (items c) idx"
  proof -
    let ?h = "(items c)[idx := r]"
    have e: "Consider c r = rebuildIPMap (c\<lparr>items := Fix ?h idx\<rparr>)"
      using lt c s by (simp add: Consider_def)
    have m: "mset (Fix ?h idx) = add_mset r (mset (items c) - {#items c ! idx#})"
      using i by (simp add: Fix_mset mset_update)
    have "map IP ?h = map IP (items c)"
      using i by (simp add: map_update list_update_same_conv)
    then have d: "distinct (map IP (Fix ?h idx))"
      using perm_distinct_IP [of "Fix ?h idx" ?h] i inv by (simp add: Fix_mset topn_inv_def)
    have hp: "is_heap (Fix ?h idx)"
      using Fix_heap [of "items c" idx r] inv i lt by (simp add: topn_inv_def)
    have "topn_inv (rebuildIPMap (c\<lparr>items := Fix ?h idx\<rparr>))"
      using inv d hp by (intro rebuild_inv) (simp_all add: topn_inv_def)
    then show ?thesis using e m by (simp add: rebuildIPMap_def)
  qed
qed

lemma Consider_push:
  assumes inv: "topn_inv c" and s: "ipSeen c (IP r) = None"
    and room: "int (length (items c)) < cap c"
  shows "topn_inv (Consider c r)" "mset (items (Consider c r)) = add_mset r (mset (items c))"
proof -
  have c: "0 < cap c" using inv by (simp add: topn_inv_def)
  have e: "Consider c r = rebuildIPMap (c\<lparr>items := Push (items c) r\<rparr>)"
    using c s room by (simp add: Consider_def)
  have "IP r \<notin> IP ` set (items c)" by (rule ipSeen_None [OF inv s])
  then have "distinct (map IP (r # items c))" using inv by (simp add: topn_inv_def)
  then have d: "distinct (map IP (Push (items c) r))"
    using perm_distinct_IP [of "Push (items c) r" "r # items c"] by (simp add: Push_mset)
  have "topn_inv (rebuildIPMap (c\<lparr>items := Push (items c) r\<rparr>))"
    using inv d room by (intro rebuild_inv) (simp_all add: topn_inv_def Push_heap)
  then show "topn_inv (Consider c r)" using e by simp
  show "mset (items (Consider c r)) = add_mset r (mset (items c))"
    using e by (simp add: rebuildIPMap_def Push_mset)
qed

lemma Consider_full:
  assumes inv: "topn_inv c" and s: "ipSeen c (IP r) = None"
    and full: "\<not> int (length (items c)) < cap c"
  shows "ScoreMS r < sc (items c) 0 \<Longrightarrow>
           topn_inv (Consider c r)
           \<and> mset (items (Consider c r)) = add_mset r (mset (items c) - {#items c ! 0#})
           \<and> ipSeen (Consider c r) (IP (items c ! 0)) = None"
    and "\<not> ScoreMS r < sc (items c) 0 \<Longrightarrow> Consider c r = c"
proof -
  have c: "0 < cap c" using inv by (simp add: topn_inv_def)
  show "Consider c r = c" if "\<not> ScoreMS r < sc (items c) 0"
    using that c s full by (simp add: Consider_def)
  show "topn_inv (Consider c r)
        \<and> mset (items (Consider c r)) = add_mset r (mset (items c) - {#items c ! 0#})
        \<and> ipSeen (Consider c r) (IP (items c ! 0)) = None"
    if lt: "ScoreMS r < sc (items c) 0"
  proof -
    have ne: "items c \<noteq> []" using c full by auto
    obtain worst h where P: "Pop (items c) = (worst, h)" by (cases "Pop (items c)")
    have w: "worst = items c ! 0" and mh: "mset (items c) = add_mset worst (mset h)"
      and lh: "length h = length (items c) - 1" and hh: "is_heap h"
      using Pop_props [OF ne] P inv by (simp_all add: topn_inv_def)
    have e: "Consider c r = rebuildIPMap (c\<lparr>ipSeen := (ipSeen c)(IP worst := None), items := Push h r\<rparr>)"
      using lt c s full P by (simp add: Consider_def Let_def)
    have nr: "IP r \<notin> IP ` set (items c)" by (rule ipSeen_None [OF inv s])
    have "distinct (map IP (worst # h))"
      using perm_distinct_IP [of "worst # h" "items c"] mh inv by (simp add: topn_inv_def)
    then have dh: "distinct (map IP h)" "IP worst \<notin> IP ` set h" by auto
    have sub: "set h \<subseteq> set (items c)"
      using mh by (metis mset_eq_setD set_subset_Cons mset.simps(2))
    have nrh: "IP r \<notin> IP ` set h" using nr sub by auto
    have "distinct (map IP (r # h))" using dh nrh by simp
    then have d: "distinct (map IP (Push h r))"
      using perm_distinct_IP [of "Push h r" "r # h"] by (simp add: Push_mset)
    have len: "int (length (Push h r)) \<le> cap c"
      using lh ne inv by (cases "items c") (auto simp add: topn_inv_def)
    have ti: "topn_inv (rebuildIPMap (c\<lparr>ipSeen := (ipSeen c)(IP worst := None), items := Push h r\<rparr>))"
      using c d len hh by (intro rebuild_inv) (simp_all add: Push_heap)
    have m: "mset (Push h r) = add_mset r (mset (items c) - {#items c ! 0#})"
      using mh w by (simp add: Push_mset)
    have "IP worst \<noteq> IP r" using nr w ne by (metis imageI nth_mem length_greater_0_conv)
    then have "IP worst \<notin> IP ` set (Push h r)"
      using dh(2) by (metis (no_types, lifting) Push_mset image_iff mset_eq_setD set_ConsD mset.simps(2))
    then have "rebuildLoop (Push h r) 0 Map.empty (IP worst) = None"
      by (simp add: rebuildLoop_absent)
    then show ?thesis using e ti m w by (simp add: rebuildIPMap_def)
  qed
qed

lemma Consider_inv: "topn_inv c \<Longrightarrow> topn_inv (Consider c r)"
proof -
  assume inv: "topn_inv c"
  show ?thesis
  proof (cases "ipSeen c (IP r)")
    case (Some idx)
    then show ?thesis
      using Consider_dup [OF inv Some] inv by (cases "ScoreMS r < sc (items c) idx") auto
  next
    case None
    show ?thesis
    proof (cases "int (length (items c)) < cap c")
      case True
      then show ?thesis using Consider_push [OF inv None] by simp
    next
      case False
      then show ?thesis
        using Consider_full [OF inv None False] inv by (cases "ScoreMS r < sc (items c) 0") auto
    qed
  qed
qed

lemma foldl_Consider_inv: "topn_inv c \<Longrightarrow> topn_inv (foldl Consider c rs)"
  by (induction rs arbitrary: c) (auto simp: Consider_inv)

lemma cap_Consider [simp]: "cap (Consider c r) = cap c"
  by (simp add: Consider_def rebuildIPMap_def Let_def split: option.splits prod.splits)

lemma cap_foldl_Consider [simp]: "cap (foldl Consider c rs) = cap c"
  by (induction rs arbitrary: c) auto

text \<open>
  C4. Let \<open>c\<close> be a collector created with capacity \<open>N > 0\<close> after any sequence of
  \<open>Consider\<close> calls. \<open>Snapshot\<close> returns the kept entries (a permutation of the heap's
  items) sorted ascending by score, at most \<open>N\<close> of them, with pairwise distinct IPs.
  One more call \<open>Consider c r\<close>: if an entry \<open>old\<close> with the IP of \<open>r\<close> is kept, \<open>r\<close>
  replaces it when its score is strictly lower and nothing changes otherwise; else, with
  fewer than \<open>N\<close> entries, \<open>r\<close> is added; else the heap root \<open>items ! 0\<close> is an entry
  of highest score (the worst kept), and \<open>r\<close> replaces it, its IP leaving the map
  \<open>ipSeen\<close>, when the score of \<open>r\<close> is strictly lower, and nothing changes otherwise.
\<close>

theorem C4_topn_collector:
  assumes "0 < N"
  shows "(let c = foldl Consider (NewTopNCollector N) rs;
              snap = Snapshot c;
              c' = Consider c r
          in sorted_wrt (\<lambda>a b. ScoreMS a \<le> ScoreMS b) snap
           \<and> int (length snap) \<le> N
           \<and> distinct (map IP snap)
           \<and> mset snap = mset (items c)
           \<and> (case find (\<lambda>x. IP x = IP r) (items c) of
                Some old \<Rightarrow>
                  (if ScoreMS r < ScoreMS old
                   then mset (items c') = add_mset r (mset (items c) - {#old#})
                   else c' = c)
              | None \<Rightarrow>
                  (if int (length (items c)) < N
                   then mset (items c') = add_mset r (mset (items c))
                   else list_all (\<lambda>x. ScoreMS x \<le> ScoreMS (items c ! 0)) (items c)
                        \<and> (if ScoreMS r < ScoreMS (items c ! 0)
                            then mset (items c') = add_mset r (mset (items c) - {#items c ! 0#})
                                 \<and> ipSeen c' (IP (items c ! 0)) = None
                            else c' = c))))"
proof -
  define c where "c = foldl Consider (NewTopNCollector N) rs"
  have inv: "topn_inv c"
    unfolding c_def by (rule foldl_Consider_inv [OF topn_inv_New [OF assms]])
  have cap: "cap c = N" by (simp add: c_def NewTopNCollector_def)
  have 1: "sorted_wrt (\<lambda>a b. ScoreMS a \<le> ScoreMS b) (Snapshot c)" by (rule Snapshot_sorted)
  have m: "mset (Snapshot c) = mset (items c)" by (rule Snapshot_mset)
  then have l: "length (Snapshot c) = length (items c)" by (metis size_mset)
  have 2: "int (length (Snapshot c)) \<le> N" using inv l cap by (simp add: topn_inv_def)
  have 3: "distinct (map IP (Snapshot c))"
    using perm_distinct_IP [OF m] inv by (simp add: topn_inv_def)
  have 4: "(case find (\<lambda>x. IP x = IP r) (items c) of
                Some old \<Rightarrow>
                  (if ScoreMS r < ScoreMS old
                   then mset (items (Consider c r)) = add_mset r (mset (items c) - {#old#})
                   else Consider c r = c)
              | None \<Rightarrow>
                  (if int (length (items c)) < N
                   then mset (items (Consider c r)) = add_mset r (mset (items c))
                   else list_all (\<lambda>x. ScoreMS x \<le> ScoreMS (items c ! 0)) (items c)
                        \<and> (if ScoreMS r < ScoreMS (items c ! 0)
                            then mset (items (Consider c r)) = add_mset r (mset (items c) - {#items c ! 0#})
                                 \<and> ipSeen (Consider c r) (IP (items c ! 0)) = None
                            else Consider c r = c)))"
  proof (cases "ipSeen c (IP r)")
    case (Some idx)
    have i: "idx < length (items c)" "IP (items c ! idx) = IP r"
      using ipSeen_Some [OF inv Some] by auto
    have f: "find (\<lambda>x. IP x = IP r) (items c) = Some (items c ! idx)"
      using find_IP_Some [OF _ i] inv by (simp add: topn_inv_def)
    show ?thesis
      using Consider_dup [OF inv Some] by (simp add: f)
  next
    case None
    have f: "find (\<lambda>x. IP x = IP r) (items c) = None"
      using find_IP_None [OF ipSeen_None [OF inv None]] .
    show ?thesis
    proof (cases "int (length (items c)) < N")
      case True
      then show ?thesis using Consider_push(2) [OF inv None] cap by (simp add: f)
    next
      case False
      have "list_all (\<lambda>x. ScoreMS x \<le> ScoreMS (items c ! 0)) (items c)"
        using root_max [of "items c"] inv by (simp add: list_all_length topn_inv_def)
      then show ?thesis
        using False Consider_full [OF inv None] cap by (simp add: f)
    qed
  qed
  show ?thesis
    unfolding Let_def c_def [symmetric] using 1 2 3 m 4 by blast
qed

theorem C4_topn_collector_witness:
  "0 < (2::int)
   \<and> sorted_wrt (\<lambda>a b. ScoreMS a \<le> ScoreMS b)
        (Snapshot (foldl Consider (NewTopNCollector 2) [resultAt 1 10, resultAt 2 5, resultAt 3 7]))
   \<and> map ScoreMS (Snapshot (foldl Consider (NewTopNCollector 2) [resultAt 1 10, resultAt 2 5, resultAt 3 7])) = [5, 7]"
proof -
  have "map ScoreMS (Snapshot (foldl Consider (NewTopNCollector 2) [resultAt 1 10, resultAt 2 5, resultAt 3 7])) = [5, 7]"
    by (simp add: Snapshot_def Consider_def NewTopNCollector_def rebuildIPMap_def Push_def Pop_def
        Fix_def down_def up.simps downLoop.simps sortFrom.simps findMin.simps Swap_def Less_def
        resultAt_def Let_def)
  then show ?thesis
    using C4_topn_collector [of 2 "[resultAt 1 10, resultAt 2 5, resultAt 3 7]" "resultAt 1 4"]
    by (simp add: Let_def)
qed

section \<open>Properties of the arm tree and the scheduler\<close>

lemma map_of_setNode [simp]: "map_of (setNode k v m) = (map_of m)(k \<mapsto> v)"
  by (induction m) (auto simp: fun_eq_iff)

lemma total_setNode:
  "sum_list (map (\<lambda>(k, node). Samples node) (setNode k v m))
     = sum_list (map (\<lambda>(k, node). Samples node) m) - samplesAt m k + Samples v"
  by (induction m) (auto simp: samplesAt_def)

lemma TotalSamples_setNode:
  "TotalSamples (t\<lparr>nodeMap := setNode k v (nodeMap t)\<rparr>)
     = TotalSamples t - samplesAt (nodeMap t) k + Samples v"
  by (simp add: TotalSamples_def total_setNode)

lemma counters_samplesAt: "fst (counters t k) = samplesAt (nodeMap t) k"
  by (simp add: counters_def samplesAt_def split: option.splits)

lemma Samples_New [simp]: "Samples (NewArmNode p parent) = 0"
  "Successes (NewArmNode p parent) = 0" "Failures (NewArmNode p parent) = 0"
  by (simp_all add: NewArmNode_def)

lemma Samples_AddChild [simp]: "Samples (AddChild a c) = Samples a"
  "Successes (AddChild a c) = Successes a" "Failures (AddChild a c) = Failures a"
  by (simp_all add: AddChild_def)

lemma Samples_MarkSplit [simp]: "Samples (MarkSplit a) = Samples a"
  by (simp add: MarkSplit_def)

lemma GetOrCreateNode_props:
  assumes "GetOrCreateNode t p = (k, t1)"
  shows "k = Masked p" and "TotalSamples t1 = TotalSamples t"
    and "counters t1 = counters t"
    and "map_of (nodeMap t1) k \<noteq> None"
proof -
  show k: "k = Masked p"
    using assms by (auto simp add: GetOrCreateNode_def Let_def split: option.splits)
  show "TotalSamples t1 = TotalSamples t"
    using assms
    by (auto simp add: GetOrCreateNode_def Let_def TotalSamples_def total_setNode samplesAt_def
        split: option.splits)
  show "counters t1 = counters t"
    using assms
    by (auto simp add: GetOrCreateNode_def Let_def counters_def fun_eq_iff
        split: option.splits if_splits)
  show "map_of (nodeMap t1) k \<noteq> None"
    using assms by (auto simp add: GetOrCreateNode_def Let_def split: option.splits)
qed


lemma TreeUpdate_total:
  "TotalSamples (TreeUpdate t p success latencyMS timeoutMS) = TotalSamples t + 1"
proof -
  obtain k t1 where g: "GetOrCreateNode t p = (k, t1)" by (cases "GetOrCreateNode t p")
  note P = GetOrCreateNode_props [OF g]
  obtain node where n: "map_of (nodeMap t1) k = Some node" using P(4) by auto
  have "samplesAt (nodeMap t1) k = Samples node" using n by (simp add: samplesAt_def)
  then show ?thesis
    using g n P(2) by (simp add: TreeUpdate_def TotalSamples_setNode Update_counters)
qed

lemma TreeUpdate_counters:
  "counters (TreeUpdate t p success latencyMS timeoutMS) q =
     (if q = Masked p
      then (case counters t q of
              (s, ok, fail) \<Rightarrow>
                (s + 1, if success then ok + 1 else ok, if success then fail else fail + 1))
      else counters t q)"
proof -
  obtain k t1 where g: "GetOrCreateNode t p = (k, t1)" by (cases "GetOrCreateNode t p")
  note P = GetOrCreateNode_props [OF g]
  obtain node where n: "map_of (nodeMap t1) k = Some node" using P(4) by auto
  have "counters t1 k = (Samples node, Successes node, Failures node)"
    using n by (simp add: counters_def)
  then have c: "counters t k = (Samples node, Successes node, Failures node)"
    using P(3) by simp
  have e: "TreeUpdate t p success latencyMS timeoutMS
           = t1\<lparr>nodeMap := setNode k (Update success latencyMS timeoutMS node) (nodeMap t1)\<rparr>"
    using g n by (simp add: TreeUpdate_def)
  show ?thesis
  proof (cases "q = Masked p")
    case True
    then show ?thesis
      using e c P(1) by (simp add: counters_def Update_counters)
  next
    case False
    have "counters (TreeUpdate t p success latencyMS timeoutMS) q = counters t1 q"
      using e False P(1) by (simp add: counters_def)
    then show ?thesis using False P(3) by simp
  qed
qed

lemma addChildNode_total:
  "TotalSamples (snd (addChildNode k (created, t) cp)) = TotalSamples t"
  by (auto simp add: addChildNode_def Let_def TotalSamples_def total_setNode samplesAt_def
      split: option.splits)

lemma foldl_addChildNode_total:
  "TotalSamples (snd (foldl (addChildNode k) acc cps)) = TotalSamples (snd acc)"
proof (induction cps arbitrary: acc)
  case Nil
  then show ?case by simp
next
  case (Cons cp cps)
  obtain created t where a: "acc = (created, t)" by (cases acc)
  show ?case
    using Cons.IH [of "addChildNode k acc cp"] addChildNode_total [of k created t cp] a by simp
qed

lemma SplitNode_total: "TotalSamples (snd (SplitNode t k)) = TotalSamples t"
proof -
  have m: "TotalSamples (t1\<lparr>nodeMap := (case map_of (nodeMap t1) k of
                                Some node1 \<Rightarrow> setNode k (MarkSplit node1) (nodeMap t1)
                              | None \<Rightarrow> nodeMap t1)\<rparr>) = TotalSamples t1" for t1
    by (auto simp add: TotalSamples_def total_setNode samplesAt_def split: option.splits)
  have F: "TotalSamples t1 = TotalSamples t" if "foldl (addChildNode k) ([], t) cps = (cr, t1)"
    for cps cr t1
    using foldl_addChildNode_total [of k "([], t)" cps] that by simp
  show ?thesis
    by (auto simp add: SplitNode_def Let_def m split: option.splits prod.splits dest: F)
qed

lemma splitLoop_total: "TotalSamples (splitLoop cands cnt ms t) = TotalSamples t"
proof (induction cands cnt ms t rule: splitLoop.induct)
  case (1 splitCount maxSplits t)
  then show ?case by simp
next
  case (2 node candidates splitCount maxSplits t)
  obtain r t1 where s: "SplitNode t node = (r, t1)" by (cases "SplitNode t node")
  have t1: "TotalSamples t1 = TotalSamples t" using SplitNode_total [of t node] s by simp
  show ?case
  proof (cases "splitCount \<ge> maxSplits")
    case True
    then show ?thesis by simp
  next
    case False
    then show ?thesis
      using 2 s t1 by (cases r) auto
  qed
qed


lemma trySplit_props:
  "cfg (trySplit env e) = cfg e" "TotalSamples (tree (trySplit env e)) = TotalSamples (tree e)"
  "processed (trySplit env e) = processed e" "completed (trySplit env e) = completed e"
  "submitted (trySplit env e) = submitted e" "pending (trySplit env e) = pending e"
  by (simp_all add: trySplit_def Let_def splitLoop_total)

lemma processOneResult_props:
  "cfg (processOneResult e d tm) = cfg e"
  "TotalSamples (tree (processOneResult e d tm)) = TotalSamples (tree e) + 1"
  "processed (processOneResult e d tm) = processed e + 1"
  "completed (processOneResult e d tm) = completed e"
  "submitted (processOneResult e d tm) = submitted e"
  "pending (processOneResult e d tm) = pending e"
  by (simp_all add: processOneResult_def Let_def TreeUpdate_total split: prod.splits)

lemma submitOneTask_props:
  "cfg (snd (submitOneTask env e h)) = cfg e"
  "tree (snd (submitOneTask env e h)) = tree e"
  "processed (snd (submitOneTask env e h)) = processed e"
  "completed (snd (submitOneTask env e h)) = completed e"
  "int (length (pending (snd (submitOneTask env e h)))) - submitted (snd (submitOneTask env e h))
     = int (length (pending e)) - submitted e"
  "submitted e \<le> submitted (snd (submitOneTask env e h))"
  "submitted (snd (submitOneTask env e h)) \<le> submitted e + 1"
  by (simp_all add: submitOneTask_def Let_def split: pick.splits)

lemma initialFill_props:
  "cfg (snd (initialFill env i k e)) = cfg e
   \<and> tree (snd (initialFill env i k e)) = tree e
   \<and> processed (snd (initialFill env i k e)) = processed e
   \<and> completed (snd (initialFill env i k e)) = completed e
   \<and> int (length (pending (snd (initialFill env i k e)))) - submitted (snd (initialFill env i k e))
       = int (length (pending e)) - submitted e
   \<and> submitted (snd (initialFill env i k e)) \<le> submitted e + int k"
proof (induction k arbitrary: i e)
  case 0
  then show ?case by simp
next
  case (Suc k)
  obtain err e1 where s: "submitOneTask env e (i mod Heads (cfg e)) = (err, e1)"
    by (cases "submitOneTask env e (i mod Heads (cfg e))")
  have p: "cfg e1 = cfg e" "tree e1 = tree e" "processed e1 = processed e"
    "completed e1 = completed e"
    "int (length (pending e1)) - submitted e1 = int (length (pending e)) - submitted e"
    "submitted e1 \<le> submitted e + 1"
    using submitOneTask_props [where env = env and e = e and h = "i mod Heads (cfg e)"] s
    by simp_all
  show ?case
  proof (cases "\<exists>er. err = Some er \<and> (er = Canceled \<or> er = DeadlineExceeded)")
    case True
    then show ?thesis using s p by auto
  next
    case False
    then have "initialFill env i (Suc k) e = initialFill env (i + 1) k e1"
      using s by (auto split: option.splits)
    then show ?thesis using Suc.IH [of "i + 1" e1] p by auto
  qed
qed

lemma sched_inv_done:
  assumes "sched_inv e" "\<not> completed e < Budget (cfg e)"
  shows "completed e = Budget (cfg e)" "pending e = []"
proof -
  have "int (length (pending e)) \<le> 0 \<and> completed e = Budget (cfg e)"
    using assms by (simp add: sched_inv_def)
  then show "completed e = Budget (cfg e)" "pending e = []" by simp_all
qed

lemma handleDone_inv:
  assumes "sched_inv e" "k < length (pending e)" "handleDone env tm ls e k res = (ls1, e1)"
  shows "sched_inv e1 \<and> cfg e1 = cfg e"
proof -
  define d where "d = \<lparr>doneTask = pending e ! k, doneResult = res\<rparr>"
  define f1 where "f1 = e\<lparr>pending := take k (pending e) @ drop (k + 1) (pending e)\<rparr>"
  define f2 where "f2 = processOneResult f1 d tm"
  define f3 where "f3 = f2\<lparr>completed := completed f2 + 1\<rparr>"
  define split where "split = (completed f3 - ls \<ge> SplitInterval (cfg f3))"
  define f4 where "f4 = (if split then trySplit env f3 else f3)"
  define f5 where "f5 = (if submitted f4 < Budget (cfg f4)
                           then snd (submitOneTask env f4 (submitted f4 mod Heads (cfg f4)))
                           else f4)"
  have "handleDone env tm ls e k res = (if split then completed f3 else ls, f5)"
    unfolding handleDone_def Let_def f5_def f4_def split_def f3_def f2_def f1_def d_def
    by (rule refl)
  then have e1: "e1 = f5" using assms(3) by simp
  have l1: "int (length (pending f1)) = int (length (pending e)) - 1"
    using assms(2) by (simp add: f1_def)
  have i3: "cfg f3 = cfg e" "int (processed f3) = completed f3"
    "TotalSamples (tree f3) = completed f3"
    "int (length (pending f3)) = submitted f3 - completed f3"
    "submitted f3 \<le> Budget (cfg f3)"
    using assms(1) l1
    by (simp_all add: f3_def f2_def processOneResult_props sched_inv_def f1_def)
  have i4: "cfg f4 = cfg e" "int (processed f4) = completed f4"
    "TotalSamples (tree f4) = completed f4"
    "int (length (pending f4)) = submitted f4 - completed f4"
    "submitted f4 \<le> Budget (cfg f4)"
    using i3 by (simp_all add: f4_def trySplit_props)
  have "sched_inv f5 \<and> cfg f5 = cfg e"
    using i4 submitOneTask_props
        [where env = env and e = f4 and h = "submitted f4 mod Heads (cfg f4)"]
    by (auto simp add: f5_def sched_inv_def)
  then show ?thesis using e1 by simp
qed

lemma mainLoop_inv:
  "sched_inv e \<Longrightarrow> mainLoop env tm ls e evs = Some (r, e', rest) \<Longrightarrow>
     sched_inv e' \<and> cfg e' = cfg e \<and> (r = None \<longrightarrow> completed e' = Budget (cfg e) \<and> pending e' = [])"
proof (induction env tm ls e evs rule: mainLoop.induct)
  case (1 env timeoutMS lastSplit e)
  then show ?case using sched_inv_done [of e] by (auto split: if_splits)
next
  case (2 env timeoutMS lastSplit e ev evs)
  show ?case
  proof (cases "completed e < Budget (cfg e)")
    case False
    then show ?thesis using "2.prems" sched_inv_done [of e] by auto
  next
    case lt: True
    show ?thesis
    proof (cases ev)
      case (CtxDone ce)
      then show ?thesis using "2.prems" lt by auto
    next
      case (Done k res)
      show ?thesis
      proof (cases "k < length (pending e)")
        case False
        then show ?thesis using "2.IH"(2) [OF lt Done False] "2.prems" lt Done by simp
      next
        case True
        obtain ls1 e1 where h: "handleDone env timeoutMS lastSplit e k res = (ls1, e1)"
          by (cases "handleDone env timeoutMS lastSplit e k res")
        have i: "sched_inv e1" "cfg e1 = cfg e"
          using handleDone_inv [OF "2.prems"(1) True h] by simp_all
        have m: "mainLoop env timeoutMS ls1 e1 evs = Some (r, e', rest)"
          using "2.prems"(2) lt Done True h by simp
        show ?thesis
          using "2.IH"(1) [OF lt Done True h [symmetric] i(1) m] i(2) by simp
      qed
    qed
  qed
qed

lemma newRoot_total: "TotalSamples (newRoot t p) = TotalSamples t"
  by (auto simp add: newRoot_def Let_def TotalSamples_def total_setNode samplesAt_def
      split: option.splits)

lemma foldl_newRoot_total: "TotalSamples (foldl newRoot t ps) = TotalSamples t"
  by (induction ps arbitrary: t) (auto simp: newRoot_total)

lemma NewArmTree_total: "TotalSamples (NewArmTree ps c) = 0"
  by (simp add: NewArmTree_def foldl_newRoot_total) (simp add: TotalSamples_def)

lemma drain_nil: "pending e = [] \<Longrightarrow> drain tm e evs = e"
  by (induction tm e evs rule: drain.induct) auto

lemma initialFill_err:
  "fst (initialFill env i k e) = Some er \<Longrightarrow> er = Canceled \<or> er = DeadlineExceeded"
proof (induction k arbitrary: i e)
  case 0
  then show ?case by simp
next
  case (Suc k)
  obtain err e1 where s: "submitOneTask env e (i mod Heads (cfg e)) = (err, e1)"
    by (cases "submitOneTask env e (i mod Heads (cfg e))")
  show ?case
  proof (cases "\<exists>er'. err = Some er' \<and> (er' = Canceled \<or> er' = DeadlineExceeded)")
    case True
    then show ?thesis using Suc.prems s by auto
  next
    case False
    then have "initialFill env i (Suc k) e = initialFill env (i + 1) k e1"
      using s by (auto split: option.splits)
    then show ?thesis using Suc.IH [of "i + 1" e1] Suc.prems by simp
  qed
qed

lemma mainLoop_err:
  "mainLoop env tm ls e evs = Some (Some er, e', rest) \<Longrightarrow> er = Canceled \<or> er = DeadlineExceeded"
proof (induction env tm ls e evs rule: mainLoop.induct)
  case (1 env timeoutMS lastSplit e)
  then show ?case by (simp split: if_splits)
next
  case (2 env timeoutMS lastSplit e ev evs)
  show ?case
  proof (cases "completed e < Budget (cfg e)")
    case False
    then show ?thesis using "2.prems" by simp
  next
    case lt: True
    show ?thesis
    proof (cases ev)
      case (CtxDone ce)
      then show ?thesis using "2.prems" lt by (cases ce) auto
    next
      case (Done k res)
      show ?thesis
      proof (cases "k < length (pending e)")
        case False
        then show ?thesis using "2.IH"(2) [OF lt Done False] "2.prems" lt Done by simp
      next
        case True
        obtain ls1 e1 where h: "handleDone env timeoutMS lastSplit e k res = (ls1, e1)"
          by (cases "handleDone env timeoutMS lastSplit e k res")
        have m: "mainLoop env timeoutMS ls1 e1 evs = Some (Some er, e', rest)"
          using "2.prems" lt Done True h by simp
        show ?thesis
          by (rule "2.IH"(1) [OF lt Done True h [symmetric] m])
      qed
    qed
  qed
qed


lemma schedule_err:
  "schedule env e tm evs = Some (Some er, e', rest) \<Longrightarrow> er = Canceled \<or> er = DeadlineExceeded"
proof -
  assume a: "schedule env e tm evs = Some (Some er, e', rest)"
  define ib where "ib = nat (if Concurrency (cfg e) * 2 > Budget (cfg e) then Budget (cfg e)
                              else Concurrency (cfg e) * 2)"
  obtain err e1 where f: "initialFill env 0 ib e = (err, e1)" by (cases "initialFill env 0 ib e")
  show ?thesis
  proof (cases err)
    case None
    then have "mainLoop env tm 0 e1 evs = Some (Some er, e', rest)"
      using a f by (simp add: schedule_def Let_def ib_def)
    then show ?thesis by (rule mainLoop_err)
  next
    case (Some er')
    then have "er' = er" using a f by (simp add: schedule_def Let_def ib_def)
    then show ?thesis using initialFill_err [of env 0 ib e er] f Some by simp
  qed
qed


lemma schedule_normal:
  assumes "schedule env e tm evs = Some (None, e', rest)"
    and "0 < Budget (cfg e)" "submitted e = 0" "completed e = 0" "pending e = []"
    "processed e = 0" "TotalSamples (tree e) = 0"
  shows "int (processed e') = Budget (cfg e) \<and> TotalSamples (tree e') = Budget (cfg e)
     \<and> pending e' = [] \<and> completed e' = Budget (cfg e)"
proof -
  define ib where "ib = nat (if Concurrency (cfg e) * 2 > Budget (cfg e) then Budget (cfg e)
                              else Concurrency (cfg e) * 2)"
  obtain err e1 where f: "initialFill env 0 ib e = (err, e1)" by (cases "initialFill env 0 ib e")
  have m: "err = None" "mainLoop env tm 0 e1 evs = Some (None, e', rest)"
    using assms(1) f by (auto simp add: schedule_def Let_def ib_def split: option.splits)
  have "int ib \<le> Budget (cfg e)" using assms(2) by (simp add: ib_def)
  then have "sched_inv e1" and c: "cfg e1 = cfg e"
    using initialFill_props [of env 0 ib e] f assms by (simp_all add: sched_inv_def)
  from mainLoop_inv [OF this(1) m(2)] c show ?thesis
    by (simp add: sched_inv_def)
qed

lemmas run_defs = RunTrace_def New_def exampleConfig_def exampleEnv_def exampleRequest_def
  exampleProbe_def DefaultConfig_def ApplyDefaults_def Validate_def loadPrefixes_def Masked_def
  NewArmTree_def newRoot_def NewArmNode_def schedule_def submitOneTask_def handleDone_def
  processOneResult_def TreeUpdate_def GetOrCreateNode_def GetNode_def Update_def UpdateSuccess_def
  UpdateFailure_def trySplit_def TimeoutMS_def Let_def NewTopNCollector_def

lemmas topn_defs = Snapshot_def Consider_def NewTopNCollector_def rebuildIPMap_def Push_def
  Pop_def Fix_def down_def up.simps downLoop.simps sortFrom.simps findMin.simps Swap_def
  Less_def resultAt_def Let_def

text \<open>
  C1. When \<open>Run\<close> (on an engine made by \<open>New\<close>) ran its scheduler to the end without
  cancellation, so that \<open>schedule\<close> returned no error, exactly \<open>Budget\<close> results were
  processed and the sum of \<open>samples\<close> over all arms of the tree is \<open>Budget\<close>.
  Processing one result changes the counters of exactly one arm, that of the (masked)
  prefix of the task: its \<open>samples\<close> and one of \<open>successes\<close> and \<open>failures\<close> grow by 1.
\<close>

theorem C1_budget_samples:
  assumes "RunTrace env (New c) req evs = Some (Finished None e')"
  shows "int (processed e') = Budget (cfg (New c))
     \<and> TotalSamples (tree e') = Budget (cfg (New c))
     \<and> counters (tree (processOneResult e d tm)) q =
         (if q = Masked (taskPrefix (doneTask d))
          then (case counters (tree e) q of
                  (s, ok, fail) \<Rightarrow>
                    (s + 1, if rOK (doneResult d) then ok + 1 else ok,
                     if rOK (doneResult d) then fail else fail + 1))
          else counters (tree e) q)"
proof -
  have v: "Validate (cfg (New c)) = None"
    using assms by (auto simp add: RunTrace_def split: option.splits)
  then have b: "0 < Budget (cfg (New c))"
    by (auto simp add: Validate_def split: if_splits)
  obtain ps where ps: "loadPrefixes req = Inr ps"
    using assms v by (auto simp add: RunTrace_def split: sum.splits)
  define e1 where "e1 = (New c)\<lparr>tree := NewArmTree ps (cfg (New c)),
                            topN := NewTopNCollector (TopN (cfg (New c)))\<rparr>"
  obtain e2 rest where s: "schedule env e1 (TimeoutMS req) evs = Some (None, e2, rest)"
    and e': "e' = drain (TimeoutMS req) e2 rest"
    using assms v ps
    by (auto simp add: RunTrace_def Let_def e1_def split: if_splits option.splits)
  have "int (processed e2) = Budget (cfg e1) \<and> TotalSamples (tree e2) = Budget (cfg e1)
     \<and> pending e2 = [] \<and> completed e2 = Budget (cfg e1)"
    by (rule schedule_normal [OF s]) (use b in \<open>simp_all add: e1_def New_def NewArmTree_total\<close>)
  then have "int (processed e') = Budget (cfg (New c)) \<and> TotalSamples (tree e') = Budget (cfg (New c))"
    using e' by (simp add: drain_nil e1_def)
  moreover have "tree (processOneResult e d tm) = TreeUpdate (tree e) (taskPrefix (doneTask d)) (rOK (doneResult d))
                 (real_of_int (rTotalMS (doneResult d))) tm"
    by (simp add: processOneResult_def Let_def split: prod.splits)
  ultimately show ?thesis
    by (simp add: TreeUpdate_counters)
qed

theorem C1_budget_samples_witness:
  "\<exists>e'. RunTrace exampleEnv (New exampleConfig) exampleRequest [Done 0 exampleProbe]
           = Some (Finished None e')
        \<and> processed e' = 1 \<and> TotalSamples (tree e') = 1"
proof -
  obtain e' where r: "RunTrace exampleEnv (New exampleConfig) exampleRequest [Done 0 exampleProbe]
           = Some (Finished None e')"
    by (simp add: run_defs)
  have "Budget (cfg (New exampleConfig)) = 1"
    by (simp add: New_def ApplyDefaults_def exampleConfig_def DefaultConfig_def)
  then have "processed e' = 1 \<and> TotalSamples (tree e') = 1"
    using C1_budget_samples [OF r] by simp
  then show ?thesis using r by blast
qed



section \<open>Properties of the configuration check\<close>

lemma if_upd:
  "(if b then c\<lparr>Budget := v1\<rparr> else c) = c\<lparr>Budget := (if b then v1 else Budget c)\<rparr>"
  "(if b then c\<lparr>TopN := v2\<rparr> else c) = c\<lparr>TopN := (if b then v2 else TopN c)\<rparr>"
  "(if b then c\<lparr>Concurrency := v3\<rparr> else c) = c\<lparr>Concurrency := (if b then v3 else Concurrency c)\<rparr>"
  "(if b then c\<lparr>Heads := v4\<rparr> else c) = c\<lparr>Heads := (if b then v4 else Heads c)\<rparr>"
  "(if b then c\<lparr>Beam := v5\<rparr> else c) = c\<lparr>Beam := (if b then v5 else Beam c)\<rparr>"
  "(if b then c\<lparr>SplitStepV4 := v6\<rparr> else c) = c\<lparr>SplitStepV4 := (if b then v6 else SplitStepV4 c)\<rparr>"
  "(if b then c\<lparr>SplitStepV6 := v7\<rparr> else c) = c\<lparr>SplitStepV6 := (if b then v7 else SplitStepV6 c)\<rparr>"
  "(if b then c\<lparr>MinSamplesSplit := v8\<rparr> else c) = c\<lparr>MinSamplesSplit := (if b then v8 else MinSamplesSplit c)\<rparr>"
  "(if b then c\<lparr>MaxBitsV4 := v9\<rparr> else c) = c\<lparr>MaxBitsV4 := (if b then v9 else MaxBitsV4 c)\<rparr>"
  "(if b then c\<lparr>MaxBitsV6 := v10\<rparr> else c) = c\<lparr>MaxBitsV6 := (if b then v10 else MaxBitsV6 c)\<rparr>"
  "(if b then c\<lparr>SplitInterval := v11\<rparr> else c) = c\<lparr>SplitInterval := (if b then v11 else SplitInterval c)\<rparr>"
  "(if b then c\<lparr>DiversityWeight := v12\<rparr> else c) = c\<lparr>DiversityWeight := (if b then v12 else DiversityWeight c)\<rparr>"
  for c :: Config
  by simp_all

lemma ApplyDefaults_fields:
  "Budget (ApplyDefaults c) = (if Budget c \<le> 0 then 2000 else Budget c)"
  "TopN (ApplyDefaults c) = (if TopN c \<le> 0 then 20 else TopN c)"
  "Concurrency (ApplyDefaults c) = (if Concurrency c \<le> 0 then 200 else Concurrency c)"
  "Heads (ApplyDefaults c) = (if Heads c \<le> 0 then 4 else Heads c)"
  "Beam (ApplyDefaults c) = (if Beam c \<le> 0 then 32 else Beam c)"
  "SplitStepV4 (ApplyDefaults c) = (if SplitStepV4 c \<le> 0 then 2 else SplitStepV4 c)"
  "SplitStepV6 (ApplyDefaults c) = (if SplitStepV6 c \<le> 0 then 4 else SplitStepV6 c)"
  "MinSamplesSplit (ApplyDefaults c) = (if MinSamplesSplit c \<le> 0 then 5 else MinSamplesSplit c)"
  "MaxBitsV4 (ApplyDefaults c) = (if MaxBitsV4 c \<le> 0 then 24 else MaxBitsV4 c)"
  "MaxBitsV6 (ApplyDefaults c) = (if MaxBitsV6 c \<le> 0 then 56 else MaxBitsV6 c)"
  "SplitInterval (ApplyDefaults c) = (if SplitInterval c \<le> 0 then 20 else SplitInterval c)"
  "DiversityWeight (ApplyDefaults c)
     = (if f_le (DiversityWeight c) (Finite 0) then Finite (3 / 10) else DiversityWeight c)"
  "Seed (ApplyDefaults c) = Seed c" "Verbose (ApplyDefaults c) = Verbose c"
  by (simp_all add: ApplyDefaults_def DefaultConfig_def if_upd Let_def)

lemma Validate_None_iff:
  "(Validate c = None) =
     (0 < Budget c \<and> 0 < TopN c \<and> 0 < Concurrency c \<and> 0 < Heads c \<and> 0 < Beam c
      \<and> 1 \<le> SplitStepV4 c \<and> SplitStepV4 c \<le> 8 \<and> 1 \<le> SplitStepV6 c \<and> SplitStepV6 c \<le> 16
      \<and> 0 < MinSamplesSplit c
      \<and> 1 \<le> MaxBitsV4 c \<and> MaxBitsV4 c \<le> 32 \<and> 1 \<le> MaxBitsV6 c \<and> MaxBitsV6 c \<le> 128
      \<and> \<not> f_lt (DiversityWeight c) (Finite 0) \<and> \<not> f_lt (Finite 1) (DiversityWeight c))"
  by (auto simp add: Validate_def)

lemma in_range_Validate: "in_range c \<Longrightarrow> Validate c = None"
  unfolding Validate_None_iff in_range_def by (cases "DiversityWeight c") auto

lemma Validate_is_config_error: "Validate c = Some err \<Longrightarrow> \<exists>msg. err = ConfigInvalid msg"
  by (auto simp add: Validate_def split: if_splits)

lemma Validate_ApplyDefaults:
  "(Validate (ApplyDefaults c) = None) =
     (SplitStepV4 c \<le> 8 \<and> SplitStepV6 c \<le> 16 \<and> MaxBitsV4 c \<le> 32 \<and> MaxBitsV6 c \<le> 128
      \<and> \<not> f_lt (Finite 1) (DiversityWeight c))"
  unfolding Validate_None_iff ApplyDefaults_fields by (cases "DiversityWeight c") auto

lemma loadPrefixes_error: "loadPrefixes req = Inl err \<Longrightarrow> \<exists>msg. err = LoadError msg"
  by (auto simp add: loadPrefixes_def split: sum.splits)

lemma Run_rejects:
  assumes "Validate (cfg e) = Some err"
  shows "RunTrace env e req evs = Some (Rejected err)" "Run env e req evs = Some ([], Some err)"
  using assms by (simp_all add: RunTrace_def Run_def)

lemma Run_no_config_error:
  assumes v: "Validate (cfg e) = None"
  shows "Run env e req evs \<noteq> Some (r, Some (ConfigInvalid msg))"
proof (cases "RunTrace env e req evs")
  case None
  then show ?thesis by (simp add: Run_def)
next
  case (Some out)
  show ?thesis
  proof (cases out)
    case (Rejected err)
    have "err = NoCIDR \<or> (\<exists>m. err = LoadError m)"
      using Some Rejected v loadPrefixes_error [of req]
      by (auto simp add: RunTrace_def Let_def split: sum.splits if_splits option.splits)
    then show ?thesis using Some Rejected by (auto simp add: Run_def)
  next
    case (Finished err e')
    show ?thesis
    proof (cases err)
      case None
      then show ?thesis using Some Finished by (simp add: Run_def)
    next
      case (Some er)
      obtain e1 tm e2 rest where "schedule env e1 tm evs = Some (Some er, e2, rest)"
        using \<open>RunTrace env e req evs = Some out\<close> Finished Some
        by (auto simp add: RunTrace_def Let_def split: option.splits sum.splits if_splits)
      then have "er = Canceled \<or> er = DeadlineExceeded" by (rule schedule_err)
      then show ?thesis
        using \<open>RunTrace env e req evs = Some out\<close> Finished Some by (auto simp add: Run_def)
    qed
  qed
qed

text \<open>
  C7. \<open>Validate\<close> returns an error exactly when \<open>budget\<close>, \<open>top_n\<close>, \<open>concurrency\<close>,
  \<open>heads\<close>, \<open>beam\<close> or \<open>min_samples_split\<close> is not positive, \<open>split_step_v4\<close> is outside
  \<open>[1,8]\<close>, \<open>split_step_v6\<close> outside \<open>[1,16]\<close>, \<open>max_bits_v4\<close> outside \<open>[1,32]\<close>,
  \<open>max_bits_v6\<close> outside \<open>[1,128]\<close>, or \<open>diversity_weight\<close> compares below 0 or above 1.
  So it passes every configuration in the documented ranges, but also any
  \<open>split_interval\<close> and a \<open>diversity_weight\<close> that is not a number. \<open>Run\<close> returns the
  error of \<open>Validate\<close> at once, before any work, when the configuration of its engine
  fails \<open>Validate\<close>, and returns no configuration error when it passes. \<open>New\<close> applies
  \<open>ApplyDefaults\<close>, which replaces every value that is not positive by its default: for
  a configuration given to \<open>New\<close>, \<open>Run\<close> returns a configuration error exactly when
  \<open>split_step_v4 > 8\<close>, \<open>split_step_v6 > 16\<close>, \<open>max_bits_v4 > 32\<close>, \<open>max_bits_v6 > 128\<close> or
  \<open>diversity_weight > 1\<close>.
\<close>

theorem C7_config_validation:
  "(Validate c = None) =
     (0 < Budget c \<and> 0 < TopN c \<and> 0 < Concurrency c \<and> 0 < Heads c \<and> 0 < Beam c
      \<and> 1 \<le> SplitStepV4 c \<and> SplitStepV4 c \<le> 8 \<and> 1 \<le> SplitStepV6 c \<and> SplitStepV6 c \<le> 16
      \<and> 0 < MinSamplesSplit c
      \<and> 1 \<le> MaxBitsV4 c \<and> MaxBitsV4 c \<le> 32 \<and> 1 \<le> MaxBitsV6 c \<and> MaxBitsV6 c \<le> 128
      \<and> \<not> f_lt (DiversityWeight c) (Finite 0) \<and> \<not> f_lt (Finite 1) (DiversityWeight c))
   \<and> (in_range c \<longrightarrow> Validate c = None)
   \<and> Validate (c\<lparr>SplitInterval := n, DiversityWeight := NaN\<rparr>)
       = Validate (c\<lparr>DiversityWeight := Finite 0\<rparr>)
   \<and> (case Validate (cfg e) of
         None \<Rightarrow> (\<forall>r msg. Run env e req evs \<noteq> Some (r, Some (ConfigInvalid msg)))
       | Some err \<Rightarrow>
           (\<exists>msg. err = ConfigInvalid msg)
           \<and> RunTrace env e req evs = Some (Rejected err)
           \<and> Run env e req evs = Some ([], Some err))
   \<and> (\<exists>r msg. Run env (New c) req evs = Some (r, Some (ConfigInvalid msg))) =
       (8 < SplitStepV4 c \<or> 16 < SplitStepV6 c \<or> 32 < MaxBitsV4 c \<or> 128 < MaxBitsV6 c
        \<or> f_lt (Finite 1) (DiversityWeight c))"
proof (intro conjI)
  show "(Validate c = None) =
     (0 < Budget c \<and> 0 < TopN c \<and> 0 < Concurrency c \<and> 0 < Heads c \<and> 0 < Beam c
      \<and> 1 \<le> SplitStepV4 c \<and> SplitStepV4 c \<le> 8 \<and> 1 \<le> SplitStepV6 c \<and> SplitStepV6 c \<le> 16
      \<and> 0 < MinSamplesSplit c
      \<and> 1 \<le> MaxBitsV4 c \<and> MaxBitsV4 c \<le> 32 \<and> 1 \<le> MaxBitsV6 c \<and> MaxBitsV6 c \<le> 128
      \<and> \<not> f_lt (DiversityWeight c) (Finite 0) \<and> \<not> f_lt (Finite 1) (DiversityWeight c))"
    by (rule Validate_None_iff)
  show "in_range c \<longrightarrow> Validate c = None"
    by (simp add: in_range_Validate)
  show "Validate (c\<lparr>SplitInterval := n, DiversityWeight := NaN\<rparr>)
       = Validate (c\<lparr>DiversityWeight := Finite 0\<rparr>)"
    by (simp add: Validate_def)
  show "case Validate (cfg e) of
         None \<Rightarrow> (\<forall>r msg. Run env e req evs \<noteq> Some (r, Some (ConfigInvalid msg)))
       | Some err \<Rightarrow>
           (\<exists>msg. err = ConfigInvalid msg)
           \<and> RunTrace env e req evs = Some (Rejected err)
           \<and> Run env e req evs = Some ([], Some err)"
  proof (cases "Validate (cfg e)")
    case None
    then show ?thesis using Run_no_config_error [OF None] by simp
  next
    case (Some err)
    then show ?thesis
      using Validate_is_config_error [OF Some] Run_rejects [OF Some] by simp
  qed
  have n: "cfg (New c) = ApplyDefaults c" by (simp add: New_def)
  show "(\<exists>r msg. Run env (New c) req evs = Some (r, Some (ConfigInvalid msg))) =
       (8 < SplitStepV4 c \<or> 16 < SplitStepV6 c \<or> 32 < MaxBitsV4 c \<or> 128 < MaxBitsV6 c
        \<or> f_lt (Finite 1) (DiversityWeight c))"
  proof (cases "Validate (cfg (New c))")
    case None
    then have "Validate (ApplyDefaults c) = None" using n by simp
    then have "SplitStepV4 c \<le> 8 \<and> SplitStepV6 c \<le> 16 \<and> MaxBitsV4 c \<le> 32 \<and> MaxBitsV6 c \<le> 128
      \<and> \<not> f_lt (Finite 1) (DiversityWeight c)"
      by (simp add: Validate_ApplyDefaults)
    then show ?thesis using Run_no_config_error [OF None] by auto
  next
    case (Some err)
    then have "Validate (ApplyDefaults c) \<noteq> None" using n by simp
    then have "\<not> (SplitStepV4 c \<le> 8 \<and> SplitStepV6 c \<le> 16 \<and> MaxBitsV4 c \<le> 32 \<and> MaxBitsV6 c \<le> 128
      \<and> \<not> f_lt (Finite 1) (DiversityWeight c))"
      by (simp add: Validate_ApplyDefaults)
    moreover obtain msg where "Run env (New c) req evs = Some ([], Some (ConfigInvalid msg))"
      using Validate_is_config_error [OF Some] Run_rejects(2) [OF Some] by auto
    ultimately show ?thesis by auto
  qed
qed

theorem C7_config_validation_witness:
  "in_range exampleConfig \<and> Validate exampleConfig = None
   \<and> Validate (cfg (New (exampleConfig\<lparr>SplitStepV4 := 9\<rparr>)))
     = Some (ConfigInvalid ''splitStepV4 must be in [1,8]'')
   \<and> Run exampleEnv (New (exampleConfig\<lparr>SplitStepV4 := 9\<rparr>)) exampleRequest [Done 0 exampleProbe]
     = Some ([], Some (ConfigInvalid ''splitStepV4 must be in [1,8]''))"
proof -
  have r: "in_range exampleConfig"
    by (simp add: in_range_def exampleConfig_def DefaultConfig_def)
  have v: "Validate (cfg (New (exampleConfig\<lparr>SplitStepV4 := 9\<rparr>)))
     = Some (ConfigInvalid ''splitStepV4 must be in [1,8]'')"
    by (simp add: New_def ApplyDefaults_def exampleConfig_def DefaultConfig_def Validate_def)
  show ?thesis
    using C7_config_validation [where c = exampleConfig
        and e = "New (exampleConfig\<lparr>SplitStepV4 := 9\<rparr>)"
        and env = exampleEnv and req = exampleRequest and evs = "[Done 0 exampleProbe]"] r v
    by simp
qed

text \<open>
  C7, a field that is not positive: \<open>TopN = 0\<close> is out of range, yet \<open>Run\<close> on the engine
  that \<open>New\<close> makes of this configuration probes and returns without error.
\<close>

theorem C7_nonpositive_field_not_rejected:
  "TopN zeroTopNConfig \<le> 0
   \<and> map_option snd (Run exampleEnv (New zeroTopNConfig) exampleRequest [Done 0 exampleProbe])
       = Some None"
  by (simp add: Run_def zeroTopNConfig_def run_defs)

section \<open>Order of the exploitation prefixes\<close>

text \<open>
  C8. With the same top-N results, two orders in which the runtime may visit the map
  \<open>prefixBestScore\<close> give two different lists of exploitation prefixes, and the same
  uniform draw (here 0.1, at the exploitation rate reached after 990 of 1000 probes)
  then selects different prefixes to probe: the run is not determined by the
  configuration, the seed and the probe function.
\<close>

theorem C8_exploitation_order_varies:
  "getExploitationPrefixes (\<lambda>m. m) twoPrefixes
      = [Prefix (Addr4 0x01010000) 16, Prefix (Addr4 0x01010000) 16, Prefix (Addr4 0x01010000) 16,
         Prefix (Addr4 0x02020000) 16]
   \<and> getExploitationPrefixes rev twoPrefixes
      = [Prefix (Addr4 0x02020000) 16, Prefix (Addr4 0x01010000) 16, Prefix (Addr4 0x01010000) 16,
         Prefix (Addr4 0x01010000) 16]
   \<and> exploitChoice (1 / 10) (exploitRate 990 1000) (getExploitationPrefixes (\<lambda>m. m) twoPrefixes)
      = Some (Prefix (Addr4 0x01010000) 16)
   \<and> exploitChoice (1 / 10) (exploitRate 990 1000) (getExploitationPrefixes rev twoPrefixes)
      = Some (Prefix (Addr4 0x02020000) 16)"
  by (simp add: getExploitationPrefixes_def twoPrefixes_def exploitChoice_def exploitRate_def
      topn_defs)

end
